theory Spec2Isabelle
  imports Complex_Main "HOL-Library.Signed_Division"
begin

section \<open>Go runtime failures\<close>

text \<open>
  The Go code can stop with a runtime panic in three ways that matter here: an index out
  of range, \<^verbatim>\<open>make\<close> with a negative length or capacity, and an integer division by
  zero. Every function of the model that can panic returns \<open>panic + 'a\<close>, with \<open>Inl\<close> for the
  panic.
\<close>

datatype panic = IndexOutOfRange | MakesliceOutOfRange | IntegerDivideByZero

section \<open>The ring buffer tap (\<^verbatim>\<open>visualTap\<close>)\<close>

text \<open>
  A frame is \<^verbatim>\<open>[2]float64\<close>. The tap only copies frames, so the sample type is left
  polymorphic; \<^verbatim>\<open>make\<close> fills the buffer with the zero frame. The fields \<^verbatim>\<open>Source\<close>
  (an opaque streamer) and \<^verbatim>\<open>mu\<close> (the lock) are not part of the record: what the
  source returned is an argument of \<open>Stream\<close>, and each operation is modelled as atomic,
  as it is under the lock.
\<close>

type_synonym 'a frame = "'a \<times> 'a"

record 'a visualTap =
  buffer :: "'a frame list"
  nextIndex :: int

definition newVisualTap :: "int \<Rightarrow> panic + ('a::zero) visualTap" where
  "newVisualTap ringSize =
     (if ringSize < 0 then Inl MakesliceOutOfRange
      else Inr \<lparr>buffer = replicate (nat ringSize) (0, 0), nextIndex = 0\<rparr>)"

text \<open>
  The body of the loop of \<^verbatim>\<open>Stream\<close>, for indices already checked: store the frame at
  the cursor, advance the cursor, wrap it to 0 at the end of the buffer.
\<close>

definition writeFrame :: "'a visualTap \<Rightarrow> 'a frame \<Rightarrow> 'a visualTap" where
  "writeFrame t f =
     (let t1 = t\<lparr>buffer := (buffer t)[nat (nextIndex t) := f]\<rparr>;
          t2 = t1\<lparr>nextIndex := nextIndex t1 + 1\<rparr>
      in if nextIndex t2 \<ge> int (length (buffer t2)) then t2\<lparr>nextIndex := 0\<rparr> else t2)"

text \<open>
  The loop of \<^verbatim>\<open>Stream\<close>: \<^verbatim>\<open>for i := 0; i < n; i++\<close>. Reading \<^verbatim>\<open>samples[i]\<close> or
  writing \<^verbatim>\<open>t.buffer[t.nextIndex]\<close> out of range panics.
\<close>

function streamLoop :: "'a visualTap \<Rightarrow> 'a frame list \<Rightarrow> int \<Rightarrow> int \<Rightarrow> panic + 'a visualTap" where
  "streamLoop t samples n i =
     (if i < n then
        if \<not> (0 \<le> i \<and> i < int (length samples)) then Inl IndexOutOfRange
        else if \<not> (0 \<le> nextIndex t \<and> nextIndex t < int (length (buffer t))) then Inl IndexOutOfRange
        else streamLoop (writeFrame t (samples ! nat i)) samples n (i + 1)
      else Inr t)"
  by pat_completeness auto
termination
  by (relation "measure (\<lambda>(t, samples, n, i). nat (n - i))") auto

declare streamLoop.simps [simp del]

text \<open>
  \<^verbatim>\<open>Stream\<close>: \<open>samples\<close> is the slice as the source left it, \<open>(n, ok)\<close> what the source
  returned. The result is the updated tap together with \<open>(n, ok)\<close>, passed on unchanged.
\<close>

definition Stream :: "'a visualTap \<Rightarrow> 'a frame list \<Rightarrow> int \<Rightarrow> bool \<Rightarrow> panic + ('a visualTap \<times> int \<times> bool)" where
  "Stream t samples n ok =
     (if n > 0 then
        (case streamLoop t samples n 0 of
           Inl e \<Rightarrow> Inl e
         | Inr t' \<Rightarrow> Inr (t', n, ok))
      else Inr (t, n, ok))"

text \<open>A run of \<^verbatim>\<open>Stream\<close> calls, one per batch delivered by the source.\<close>

fun Streams :: "'a visualTap \<Rightarrow> ('a frame list \<times> int \<times> bool) list \<Rightarrow> panic + 'a visualTap" where
  "Streams t [] = Inr t"
| "Streams t ((samples, n, ok) # calls) =
     (case Stream t samples n ok of
        Inl e \<Rightarrow> Inl e
      | Inr (t', _, _) \<Rightarrow> Streams t' calls)"

text \<open>The collecting loop of \<^verbatim>\<open>snapshot\<close>, walking backwards from \<open>idx\<close>.\<close>

function snapshotLoop :: "'a frame list \<Rightarrow> int \<Rightarrow> int \<Rightarrow> int \<Rightarrow> 'a frame list \<Rightarrow> panic + 'a frame list" where
  "snapshotLoop buf n i idx out =
     (if i < n then
        if \<not> (0 \<le> idx \<and> idx < int (length buf)) then Inl IndexOutOfRange
        else
          let out1 = out @ [buf ! nat idx];
              idx1 = idx - 1;
              idx2 = (if idx1 < 0 then int (length buf) - 1 else idx1)
          in snapshotLoop buf n (i + 1) idx2 out1
      else Inr out)"
  by pat_completeness auto
termination
  by (relation "measure (\<lambda>(buf, n, i, idx, out). nat (n - i))") auto

declare snapshotLoop.simps [simp del]

text \<open>
  The in-place reversal at the end of \<^verbatim>\<open>snapshot\<close>:
  \<^verbatim>\<open>for i, j := 0, len(out)-1; i < j; i, j = i+1, j-1 { out[i], out[j] = out[j], out[i] }\<close>.
  Both indices stay inside the slice whenever \<open>i < j\<close> holds at the start with
  \<open>0 \<le> i\<close> and \<open>j < len(out)\<close>, which is how \<open>snapshot\<close> calls it.
\<close>

function reverseLoop :: "'a list \<Rightarrow> int \<Rightarrow> int \<Rightarrow> 'a list" where
  "reverseLoop out i j =
     (if i < j then
        reverseLoop (out[nat i := out ! nat j, nat j := out ! nat i]) (i + 1) (j - 1)
      else out)"
  by pat_completeness auto
termination
  by (relation "measure (\<lambda>(out, i, j). nat (j - i))") auto

declare reverseLoop.simps [simp del]

definition snapshot :: "'a visualTap \<Rightarrow> int \<Rightarrow> panic + 'a frame list" where
  "snapshot t n0 =
     (let len = int (length (buffer t));
          n = (if n0 > len then len else n0)
      in if n < 0 then Inl MakesliceOutOfRange
         else
           let idx0 = nextIndex t - 1;
               idx = (if idx0 < 0 then len - 1 else idx0)
           in (case snapshotLoop (buffer t) n 0 idx [] of
                 Inl e \<Rightarrow> Inl e
               | Inr out \<Rightarrow> Inr (reverseLoop out 0 (int (length out) - 1))))"

text \<open>
  Vocabulary for the statements: the frames a run of \<^verbatim>\<open>Stream\<close> calls pushed, in order,
  and the last \<open>k\<close> elements of a list, oldest first.
\<close>

definition pushed :: "('a frame list \<times> int \<times> bool) list \<Rightarrow> 'a frame list" where
  "pushed calls = concat (map (\<lambda>(samples, n, ok). take (nat n) samples) calls)"

definition lastn :: "nat \<Rightarrow> 'a list \<Rightarrow> 'a list" where
  "lastn k xs = drop (length xs - k) xs"

text \<open>The source's contract: it reports at most as many frames as the slice holds.\<close>

definition sourceOk :: "('a frame list \<times> int \<times> bool) list \<Rightarrow> bool" where
  "sourceOk calls = list_all (\<lambda>(samples, n, ok). n \<le> int (length samples)) calls"

text \<open>
  The states a tap can be in: the cursor points into the buffer, or the buffer is empty
  (ring size 0) and the cursor is 0. \<open>window\<close> is the buffer read from the cursor
  round to the cursor, that is, oldest slot first.
\<close>

definition ringInv :: "'a visualTap \<Rightarrow> bool" where
  "ringInv t \<longleftrightarrow> 0 \<le> nextIndex t \<and> nextIndex t < int (length (buffer t))"

definition window :: "'a visualTap \<Rightarrow> 'a frame list" where
  "window t = rotate (nat (nextIndex t)) (buffer t)"

definition tapOk :: "'a visualTap \<Rightarrow> bool" where
  "tapOk t \<longleftrightarrow> ringInv t \<or> (buffer t = [] \<and> nextIndex t = 0)"

section \<open>Numbers\<close>

text \<open>
  \<^verbatim>\<open>float64\<close> values are modelled as real numbers: rounding, infinities and NaN are not
  represented. \<^verbatim>\<open>math.Sqrt\<close> is \<open>sqrt\<close>; \<^verbatim>\<open>math.Pow(x, 0.3)\<close> is \<open>x powr 0.3\<close>, which agrees
  with it for \<open>x \<ge> 0\<close> (both give 0 at 0), the only arguments the code passes.

  The conversion \<^verbatim>\<open>int(x)\<close> of a float truncates towards zero. (Go leaves the result
  implementation-defined when the value does not fit the integer type; the statements below
  use it on values that fit.)
\<close>

definition go_int :: "real \<Rightarrow> int" where
  "go_int x = (if 0 \<le> x then \<lfloor>x\<rfloor> else \<lceil>x\<rceil>)"

text \<open>
  \<^verbatim>\<open>int\<close> and \<^verbatim>\<open>time.Duration\<close> are taken as 64-bit two's complement integers:
  arithmetic results are wrapped into \<open>[-2^63, 2^63)\<close>. Integer division truncates towards
  zero (\<open>sdiv\<close>) and panics on a zero divisor.
\<close>

definition wrap64 :: "int \<Rightarrow> int" where
  "wrap64 x = (x + 2 ^ 63) mod 2 ^ 64 - 2 ^ 63"

definition go_div :: "int \<Rightarrow> int \<Rightarrow> panic + int" where
  "go_div a b = (if b = 0 then Inl IntegerDivideByZero else Inr (wrap64 (a sdiv b)))"

text \<open>\<^verbatim>\<open>time.Second\<close> and \<^verbatim>\<open>time.Millisecond\<close>, in nanoseconds.\<close>

definition second :: int where
  "second = 1000000000"

definition millisecond :: int where
  "millisecond = 1000000"

text \<open>
  \<^verbatim>\<open>beep.SampleRate.N\<close>, from the beep library:
  \<^verbatim>\<open>func (sr SampleRate) N(d time.Duration) int { return int(d * time.Duration(sr) / time.Second) }\<close>.
\<close>

definition sampleRateN :: "int \<Rightarrow> int \<Rightarrow> int" where
  "sampleRateN sr d = wrap64 (wrap64 (d * sr) sdiv second)"

section \<open>The player state (\<^verbatim>\<open>game\<close>)\<close>

text \<open>
  The decoder (\<^verbatim>\<open>beep.StreamSeekCloser\<close>) is an opaque capability. The model keeps what the
  code asks of it: \<open>Len\<close>, the number of samples; \<open>Seek\<close>, the error \<^verbatim>\<open>Seek(p)\<close> returns
  (\<open>None\<close> for \<^verbatim>\<open>nil\<close>); and \<open>seekCalls\<close>, the offsets \<^verbatim>\<open>Seek\<close> has been called with, so that
  a statement can say that the decoder was or was not invoked.
\<close>

record streamSeekCloser =
  Len :: int
  Seek :: "int \<Rightarrow> string option"
  seekCalls :: "int list"

text \<open>
  The fields of \<^verbatim>\<open>game\<close> that audio analysis and position tracking read or write.
  \<open>streamer = None\<close> and \<open>tap = None\<close> stand for \<^verbatim>\<open>nil\<close>; \<open>sampleRate\<close> is
  \<^verbatim>\<open>format.SampleRate\<close>; durations and instants are in nanoseconds.
\<close>

record game =
  streamer :: "streamSeekCloser option"
  sampleRate :: int
  tap :: "real visualTap option"
  audioData :: "real list"
  audioDuration :: int
  audioPosition :: int
  lastSeekTime :: int
  paused :: bool
  lastErr :: "string option"

section \<open>Band energies (\<^verbatim>\<open>updateAudioData\<close>)\<close>

definition visualRingSize :: int where
  "visualRingSize = 8192"

definition smoothingFactor :: real where
  "smoothingFactor = 0.6"

definition nBands :: nat where
  "nBands = 64"

text \<open>
  The inner loop: \<^verbatim>\<open>for s := start; s < end; s++\<close>, adding the square of the mono mix
  of frame \<open>s\<close>. The callers keep \<open>stop \<le> length samples\<close>, so every read is in range.
\<close>

function sumSquaresLoop :: "real frame list \<Rightarrow> nat \<Rightarrow> nat \<Rightarrow> real \<Rightarrow> real" where
  "sumSquaresLoop samples s stop sumSquares =
     (if s < stop then
        let mono = (fst (samples ! s) + snd (samples ! s)) * 0.5
        in sumSquaresLoop samples (s + 1) stop (sumSquares + mono * mono)
      else sumSquares)"
  by pat_completeness auto
termination
  by (relation "measure (\<lambda>(samples, s, stop, sumSquares). stop - s)") auto

declare sumSquaresLoop.simps [simp del]

text \<open>
  The loop over the bands: \<^verbatim>\<open>for i := 0; i < nBands; i++\<close>, leaving at the first band whose
  segment starts beyond the samples (\<^verbatim>\<open>break\<close>). \<open>bands\<close> is \<^verbatim>\<open>g.audioData\<close>, of length
  \<open>nBands\<close> when the loop runs.
\<close>

function bandLoop :: "real frame list \<Rightarrow> nat \<Rightarrow> nat \<Rightarrow> real list \<Rightarrow> real list" where
  "bandLoop samples segmentSize i bands =
     (if i < nBands then
        let start = i * segmentSize;
            stop0 = start + segmentSize
        in if start \<ge> length samples then bands
           else
             let stop = (if stop0 > length samples then length samples else stop0);
                 sumSquares = sumSquaresLoop samples start stop 0;
                 rms = sqrt (sumSquares / real (stop - start));
                 mag = rms powr 0.3
             in bandLoop samples segmentSize (i + 1)
                  (bands[i := smoothingFactor * bands ! i + (1 - smoothingFactor) * mag])
      else bands)"
  by pat_completeness auto
termination
  by (relation "measure (\<lambda>(samples, segmentSize, i, bands). nBands - i)") auto

declare bandLoop.simps [simp del]

text \<open>
  \<^verbatim>\<open>segmentSize := int(math.Max(1, float64(len(samples))/float64(nBands)))\<close>.
\<close>

definition segmentSizeOf :: "nat \<Rightarrow> nat" where
  "segmentSizeOf n = nat (go_int (max 1 (real n / real nBands)))"

text \<open>
  What \<^verbatim>\<open>updateAudioData\<close> does with a snapshot: nothing when it is empty; otherwise it
  replaces \<^verbatim>\<open>g.audioData\<close> by zeros unless it has \<open>nBands\<close> entries, and runs the band loop.
  Frames and bands are real, that is, finite: a snapshot holding a NaN or an infinite
  amplitude, on which the Go code yields NaN bands, has no counterpart here.
\<close>

definition updateBands :: "real frame list \<Rightarrow> real list \<Rightarrow> real list" where
  "updateBands samples bands =
     (if length samples = 0 then bands
      else
        let bands1 = (if length bands \<noteq> nBands then replicate nBands 0 else bands)
        in bandLoop samples (segmentSizeOf (length samples)) 0 bands1)"

definition updateAudioData :: "game \<Rightarrow> panic + game" where
  "updateAudioData g =
     (case tap g of
        None \<Rightarrow> Inr g
      | Some t \<Rightarrow>
          (case snapshot t 2048 of
             Inl e \<Rightarrow> Inl e
           | Inr samples \<Rightarrow> Inr (g\<lparr>audioData := updateBands samples (audioData g)\<rparr>)))"

text \<open>
  Vocabulary for the statements: the mono mix of a frame, the root mean square of the mono
  mixes of a segment, and the new value of a band fed a segment.
\<close>

definition mono :: "real frame \<Rightarrow> real" where
  "mono f = (fst f + snd f) * 0.5"

definition rmsMono :: "real frame list \<Rightarrow> real" where
  "rmsMono seg = sqrt ((\<Sum>f\<leftarrow>seg. mono f * mono f) / real (length seg))"

definition smooth :: "real \<Rightarrow> real frame list \<Rightarrow> real" where
  "smooth prev seg = smoothingFactor * prev + (1 - smoothingFactor) * (rmsMono seg) powr 0.3"

text \<open>
  The update as the specification words it: segment \<open>i\<close> is the \<open>i\<close>-th block of
  \<open>\<lceil>N / 64\<rceil>\<close> frames (shorter or empty at the end of the snapshot); a band with a non-empty
  segment is smoothed towards its magnitude, a band with an empty segment keeps its value.
\<close>

definition specSegment :: "real frame list \<Rightarrow> nat \<Rightarrow> real frame list" where
  "specSegment samples i =
     (let size = nat \<lceil>real (length samples) / real nBands\<rceil>
      in take size (drop (i * size) samples))"

definition specUpdate :: "real frame list \<Rightarrow> real list \<Rightarrow> real list" where
  "specUpdate samples bands =
     map (\<lambda>i. if specSegment samples i = [] then bands ! i else smooth (bands ! i) (specSegment samples i))
       [0..<nBands]"

text \<open>
  The ranges of the data model: frame amplitudes in \<open>[-1, 1]\<close>, band magnitudes in
  \<open>[0, 1]\<close>.
\<close>

definition framesInRange :: "real frame list \<Rightarrow> bool" where
  "framesInRange samples = list_all (\<lambda>f. \<bar>fst f\<bar> \<le> 1 \<and> \<bar>snd f\<bar> \<le> 1) samples"

definition bandsInRange :: "real list \<Rightarrow> bool" where
  "bandsInRange bands = list_all (\<lambda>b. 0 \<le> b \<and> b \<le> 1) bands"

definition bandsNonneg :: "real list \<Rightarrow> bool" where
  "bandsNonneg bands = list_all (\<lambda>b. 0 \<le> b) bands"

section \<open>Position tracking (\<^verbatim>\<open>updateAudioPosition\<close>, \<^verbatim>\<open>seekToPosition\<close>, \<^verbatim>\<open>loadAndPlay\<close>)\<close>

text \<open>
  The conversion of a sample count into a duration, written twice in the code (for the total
  duration in \<^verbatim>\<open>loadAndPlay\<close>, for the position in \<^verbatim>\<open>seekToPosition\<close>):
  \<^verbatim>\<open>time.Duration(x) * time.Second / time.Duration(format.SampleRate.N(time.Second))\<close>.
\<close>

definition samplesToDuration :: "int \<Rightarrow> int \<Rightarrow> panic + int" where
  "samplesToDuration x sr = go_div (wrap64 (x * second)) (sampleRateN sr second)"

text \<open>
  \<^verbatim>\<open>updateAudioPosition\<close>, called once per frame; \<^verbatim>\<open>time.Second / 60\<close> is the constant
  16666666.
\<close>

definition updateAudioPosition :: "game \<Rightarrow> game" where
  "updateAudioPosition g =
     (if streamer g = None \<or> paused g then g
      else
        let g1 = g\<lparr>audioPosition := wrap64 (audioPosition g + second sdiv 60)\<rparr>
        in if audioPosition g1 > audioDuration g1 then g1\<lparr>audioPosition := audioDuration g1\<rparr> else g1)"

text \<open>
  The sample offset \<^verbatim>\<open>seekToPosition\<close> passes to the decoder: the clamp of \<open>pos\<close> into
  \<open>[0, 1]\<close>, the float computation of the offset, and the two bounds checks.
\<close>

definition seekTarget :: "game \<Rightarrow> streamSeekCloser \<Rightarrow> real \<Rightarrow> int" where
  "seekTarget g s pos0 =
     (let pos1 = (if pos0 < 0 then 0 else pos0);
          pos = (if pos1 > 1 then 1 else pos1);
          seekPos0 = go_int (pos * real_of_int (audioDuration g) * real_of_int (sampleRate g)
                              / real_of_int second);
          seekPos1 = (if seekPos0 < 0 then 0 else seekPos0);
          maxPos = Len s
      in if seekPos1 \<ge> maxPos then wrap64 (maxPos - 1) else seekPos1)"

text \<open>
  \<^verbatim>\<open>seekToPosition\<close>. \<open>now1\<close> is the clock reading of \<^verbatim>\<open>time.Since\<close>, \<open>now2\<close> that of the
  closing \<^verbatim>\<open>time.Now()\<close>. (\<^verbatim>\<open>time.Since\<close> saturates at the ends of the \<^verbatim>\<open>Duration\<close> range,
  which does not change the comparison with 50ms.) The error of a refused seek goes to
  \<^verbatim>\<open>g.lastErr\<close>, which the status line shows.
\<close>

definition seekToPosition :: "game \<Rightarrow> int \<Rightarrow> int \<Rightarrow> real \<Rightarrow> panic + game" where
  "seekToPosition g now1 now2 pos =
     (case streamer g of
        None \<Rightarrow> Inr g
      | Some s \<Rightarrow>
          if now1 - lastSeekTime g < 50 * millisecond then Inr g
          else
            let seekPos = seekTarget g s pos;
                g1 = g\<lparr>streamer := Some (s\<lparr>seekCalls := seekCalls s @ [seekPos]\<rparr>)\<rparr>
            in (case Seek s seekPos of
                  Some err \<Rightarrow> Inr (g1\<lparr>lastErr := Some err\<rparr>)
                | None \<Rightarrow>
                    (case samplesToDuration seekPos (sampleRate g) of
                       Inl e \<Rightarrow> Inl e
                     | Inr p \<Rightarrow> Inr (g1\<lparr>audioPosition := p, lastSeekTime := now2\<rparr>))))"

text \<open>
  \<^verbatim>\<open>loadAndPlay\<close>, from the decoded stream on: opening the file, choosing the decoder and
  initialising the speaker are outside the model. \<open>s\<close> and \<open>sr\<close> are the decoder's streamer
  and sample rate.
\<close>

definition loadAndPlay :: "game \<Rightarrow> streamSeekCloser \<Rightarrow> int \<Rightarrow> panic + game" where
  "loadAndPlay g s sr =
     (case newVisualTap visualRingSize of
        Inl e \<Rightarrow> Inl e
      | Inr t \<Rightarrow>
          (case samplesToDuration (Len s) sr of
             Inl e \<Rightarrow> Inl e
           | Inr d \<Rightarrow>
               Inr (g\<lparr>streamer := Some s, sampleRate := sr, tap := Some t, paused := False,
                      audioDuration := d, audioPosition := 0\<rparr>)))"

text \<open>The callback \<^verbatim>\<open>loadAndPlay\<close> registers for the end of the stream.\<close>

definition streamEnded :: "game \<Rightarrow> game" where
  "streamEnded g = g\<lparr>streamer := None, audioDuration := 0, audioPosition := 0\<rparr>"

text \<open>
  \<^verbatim>\<open>NewGame\<close>: every field has its zero value. Instants are counted in nanoseconds from
  the Unix epoch, where the zero \<^verbatim>\<open>time.Time\<close> (1 January of year 1) is 62135596800 seconds
  back.
\<close>

definition NewGame :: game where
  "NewGame = \<lparr>streamer = None, sampleRate = 0, tap = None, audioData = [],
     audioDuration = 0, audioPosition = 0, lastSeekTime = - 62135596800 * second,
     paused = False, lastErr = None\<rparr>"

text \<open>
  The scenario of the specification: a stream of 441000 samples at 44100 Hz (10 seconds)
  whose decoder accepts the offsets of its samples, and the player state once
  \<^verbatim>\<open>loadAndPlay\<close> has loaded it into a new game. \<open>refusingStream\<close> is the same stream with a
  decoder that refuses every seek.
\<close>

definition scenarioStream :: streamSeekCloser where
  "scenarioStream = \<lparr>Len = 441000,
     Seek = (\<lambda>p. if 0 \<le> p \<and> p < 441000 then None else Some ''seek position out of range''),
     seekCalls = []\<rparr>"

definition refusingStream :: streamSeekCloser where
  "refusingStream = \<lparr>Len = 441000, Seek = (\<lambda>p. Some ''seek refused''), seekCalls = []\<rparr>"

definition scenarioGame :: "streamSeekCloser \<Rightarrow> game" where
  "scenarioGame s = \<lparr>streamer = Some s, sampleRate = 44100,
     tap = Some \<lparr>buffer = replicate 8192 (0, 0), nextIndex = 0\<rparr>, audioData = [],
     audioDuration = 10 * second, audioPosition = 0, lastSeekTime = - 62135596800 * second,
     paused = False, lastErr = None\<rparr>"

text \<open>
  Vocabulary for the statements: the invariant of the playback clock, and the relation
  \<^verbatim>\<open>loadAndPlay\<close> sets up between the total duration and the stream being played.
\<close>

definition positionOk :: "game \<Rightarrow> bool" where
  "positionOk g \<longleftrightarrow> 0 \<le> audioPosition g \<and> audioPosition g \<le> audioDuration g"

definition loaded :: "game \<Rightarrow> streamSeekCloser \<Rightarrow> bool" where
  "loaded g s \<longleftrightarrow> samplesToDuration (Len s) (sampleRate g) = Inr (audioDuration g)"

section \<open>Ring buffer: the loops\<close>

lemma reverseLoop_middle:
  "i = int (length a) \<Longrightarrow> j = int (length a + length m) - 1 \<Longrightarrow>
   reverseLoop (a @ m @ b) i j = a @ rev m @ b"
proof (induction m arbitrary: a b i j rule: length_induct)
  case (1 m)
  show ?case
  proof (cases "length m \<le> 1")
    case True
    then have "rev m = m" by (cases m) auto
    with True 1(2,3) show ?thesis by (subst reverseLoop.simps) simp
  next
    case False
    then obtain x m1 where m1: "m = x # m1" "m1 \<noteq> []" by (cases m) auto
    then obtain m2 y where m2: "m1 = m2 @ [y]" by (metis rev_exhaust)
    have m: "m = x # m2 @ [y]" using m1 m2 by simp
    have lt: "i < j" using 1(2,3) m by simp
    have ni: "nat i = length a" and nj: "nat j = length a + length m2 + 1"
      using 1(2,3) m by simp_all
    have swap: "(a @ m @ b)[nat i := (a @ m @ b) ! nat j, nat j := (a @ m @ b) ! nat i]
        = (a @ [y]) @ m2 @ ([x] @ b)"
      unfolding ni nj using m by (simp add: list_update_append nth_append)
    have "reverseLoop (a @ m @ b) i j
        = reverseLoop ((a @ [y]) @ m2 @ ([x] @ b)) (i + 1) (j - 1)"
      by (subst reverseLoop.simps) (simp only: lt if_True swap)
    also have "\<dots> = (a @ [y]) @ rev m2 @ ([x] @ b)"
    proof (rule "1.IH" [rule_format])
      show "length m2 < length m" using m by simp
      show "i + 1 = int (length (a @ [y]))" using 1(2) by simp
      show "j - 1 = int (length (a @ [y]) + length m2) - 1" using 1(3) m by simp
    qed
    finally show ?thesis using m by simp
  qed
qed

lemma reverseLoop_rev: "reverseLoop out 0 (int (length out) - 1) = rev out"
  using reverseLoop_middle [of 0 "[]" "int (length out) - 1" out "[]"] by simp

lemma length_lastn: "length (lastn k xs) = min k (length xs)"
  by (simp add: lastn_def)

lemma lastn_all: "length xs \<le> k \<Longrightarrow> lastn k xs = xs"
  by (simp add: lastn_def)

lemma lastn_lastn_append: "lastn c (lastn c xs @ ys) = lastn c (xs @ ys)"
proof (cases "length xs \<le> c")
  case True
  then show ?thesis by (simp add: lastn_def)
next
  case False
  then have "length xs + length ys - c = (length xs - c) + length ys" by simp
  with False show ?thesis unfolding lastn_def
    by (simp add: add.commute)
qed

lemma lastn_lastn: "k \<le> c \<Longrightarrow> lastn k (lastn c xs) = lastn k xs"
proof (cases "length xs \<le> c")
  case True
  then show ?thesis by (simp add: lastn_def)
next
  case False
  assume "k \<le> c"
  with False have "length xs - (length xs - c) - k + (length xs - c) = length xs - k" by simp
  with False show ?thesis unfolding lastn_def
    by (simp add: add.commute)
qed

lemma lastn_Suc:
  "i < length xs \<Longrightarrow> lastn (Suc i) xs = xs ! (length xs - Suc i) # lastn i xs"
  unfolding lastn_def
  by (metis Cons_nth_drop_Suc Suc_diff_Suc diff_less zero_less_Suc less_nat_zero_code not_gr_zero)

lemma window_push:
  assumes "ringInv t"
  shows "ringInv (writeFrame t f)" and "length (buffer (writeFrame t f)) = length (buffer t)"
    and "window (writeFrame t f) = lastn (length (buffer t)) (window t @ [f])"
proof -
  let ?b = "buffer t" and ?k = "nat (nextIndex t)"
  have k: "?k < length ?b" "int ?k = nextIndex t" using assms(1) by (auto simp: ringInv_def)
  show "ringInv (writeFrame t f)" using assms(1) by (auto simp: ringInv_def writeFrame_def Let_def)
  show "length (buffer (writeFrame t f)) = length (buffer t)" by (simp add: writeFrame_def Let_def)
  have W: "window t = ?b ! ?k # drop (Suc ?k) ?b @ take ?k ?b"
    using k by (simp add: window_def rotate_drop_take Cons_nth_drop_Suc)
  have "window (writeFrame t f) = drop (Suc ?k) ?b @ take ?k ?b @ [f]"
  proof (cases "Suc ?k = length ?b")
    case True
    then have "int (length ?b) \<le> nextIndex t + 1" using k by linarith
    then have "writeFrame t f = t\<lparr>buffer := ?b[?k := f], nextIndex := 0\<rparr>"
      by (simp add: writeFrame_def Let_def)
    then have "window (writeFrame t f) = ?b[?k := f]" by (simp add: window_def)
    also have "\<dots> = take ?k ?b @ [f]" using True k by (simp add: upd_conv_take_nth_drop)
    finally show ?thesis using True by simp
  next
    case False
    then have lt: "Suc ?k < length ?b" using k by simp
    then have "\<not> int (length ?b) \<le> nextIndex t + 1" using k by linarith
    then have "writeFrame t f = t\<lparr>buffer := ?b[?k := f], nextIndex := nextIndex t + 1\<rparr>"
      by (simp add: writeFrame_def Let_def)
    moreover have "nat (nextIndex t + 1) = Suc ?k" using k by linarith
    ultimately have "window (writeFrame t f) = rotate (Suc ?k) (?b[?k := f])"
      by (simp add: window_def del: rotate_Suc)
    also have "\<dots> = drop (Suc ?k) (?b[?k := f]) @ take (Suc ?k) (?b[?k := f])"
      using lt by (simp add: rotate_drop_take del: rotate_Suc)
    also have "\<dots> = drop (Suc ?k) ?b @ take ?k ?b @ [f]"
      using lt by (simp add: take_Suc_conv_app_nth)
    finally show ?thesis .
  qed
  moreover have "lastn (length ?b) (window t @ [f]) = drop (Suc ?k) ?b @ take ?k ?b @ [f]"
  proof -
    have "length (window t @ [f]) - length ?b = 1" by (simp add: window_def)
    then have "lastn (length ?b) (window t @ [f]) = drop 1 (window t @ [f])"
      by (simp only: lastn_def)
    then show ?thesis by (simp add: W)
  qed
  ultimately show "window (writeFrame t f) = lastn (length (buffer t)) (window t @ [f])" by simp
qed

lemma drop_take_step:
  "0 \<le> i \<Longrightarrow> i < n \<Longrightarrow> i < int (length samples) \<Longrightarrow>
   drop (nat i) (take (nat n) samples) = samples ! nat i # drop (nat (i + 1)) (take (nat n) samples)"
proof -
  assume a: "0 \<le> i" "i < n" "i < int (length samples)"
  then have "nat i < length (take (nat n) samples)" by simp
  then have "drop (nat i) (take (nat n) samples)
      = take (nat n) samples ! nat i # drop (Suc (nat i)) (take (nat n) samples)"
    by (simp only: Cons_nth_drop_Suc)
  moreover have "Suc (nat i) = nat (i + 1)" using a by simp
  moreover have "take (nat n) samples ! nat i = samples ! nat i" using a by simp
  ultimately show ?thesis by simp
qed

lemma streamLoop_window:
  "ringInv t \<Longrightarrow> 0 \<le> i \<Longrightarrow> n \<le> int (length samples) \<Longrightarrow>
   \<exists>t'. streamLoop t samples n i = Inr t' \<and> ringInv t' \<and> length (buffer t') = length (buffer t)
      \<and> window t' = lastn (length (buffer t)) (window t @ drop (nat i) (take (nat n) samples))"
proof (induction t samples n i rule: streamLoop.induct)
  case (1 t samples n i)
  show ?case
  proof (cases "i < n")
    case False
    then have "drop (nat i) (take (nat n) samples) = []" by simp
    moreover have "length (window t) = length (buffer t)" by (simp add: window_def)
    ultimately show ?thesis using False 1(2)
      by (subst streamLoop.simps) (simp add: lastn_all)
  next
    case True
    let ?t3 = "writeFrame t (samples ! nat i)"
    have inr: "0 \<le> i \<and> i < int (length samples)" using True 1(3,4) by simp
    have inv: "0 \<le> nextIndex t \<and> nextIndex t < int (length (buffer t))"
      using 1(2) by (simp add: ringInv_def)
    note p = window_push [OF 1(2), of "samples ! nat i"]
    have step: "streamLoop t samples n i = streamLoop ?t3 samples n (i + 1)"
      using True inr inv by (subst streamLoop.simps) simp
    have "\<exists>t'. streamLoop ?t3 samples n (i + 1) = Inr t' \<and> ringInv t'
        \<and> length (buffer t') = length (buffer ?t3)
        \<and> window t' = lastn (length (buffer ?t3)) (window ?t3 @ drop (nat (i + 1)) (take (nat n) samples))"
    proof (rule "1.IH")
      show "i < n" by (rule True)
      show "\<not> \<not> (0 \<le> i \<and> i < int (length samples))" using inr by simp
      show "\<not> \<not> (0 \<le> nextIndex t \<and> nextIndex t < int (length (buffer t)))" using inv by simp
      show "ringInv ?t3" by (rule p(1))
      show "0 \<le> i + 1" using inr by simp
      show "n \<le> int (length samples)" by (rule 1(4))
    qed
    then obtain t' where t': "streamLoop ?t3 samples n (i + 1) = Inr t'" "ringInv t'"
        "length (buffer t') = length (buffer ?t3)"
        "window t' = lastn (length (buffer ?t3)) (window ?t3 @ drop (nat (i + 1)) (take (nat n) samples))"
      by blast
    have "window t' = lastn (length (buffer t)) (window t @ drop (nat i) (take (nat n) samples))"
      using t'(4) p drop_take_step [of i n samples] True inr by (simp add: lastn_lastn_append)
    then show ?thesis using step t' p by simp
  qed
qed


lemma rotate_nth_back:
  assumes "0 \<le> k" "k < int (length buf)" "0 \<le> i" "i < int (length buf)"
  shows "rotate (nat k) buf ! (length buf - Suc (nat i)) = buf ! nat ((k - 1 - i) mod int (length buf))"
proof -
  let ?c = "length buf"
  have "int (nat k + (?c - Suc (nat i))) = k - 1 - i + int ?c"
    using assms by linarith
  then have "int ((nat k + (?c - Suc (nat i))) mod ?c) = (k - 1 - i + int ?c) mod int ?c"
    by (simp only: zmod_int)
  also have "\<dots> = (k - 1 - i) mod int ?c" by simp
  finally have "(nat k + (?c - Suc (nat i))) mod ?c = nat ((k - 1 - i) mod int ?c)" by linarith
  moreover have "?c - Suc (nat i) < ?c" using assms by linarith
  ultimately show ?thesis by (simp add: nth_rotate)
qed

lemma snapshotLoop_window:
  "0 \<le> k \<Longrightarrow> k < int (length buf) \<Longrightarrow> 0 \<le> i \<Longrightarrow> i \<le> n \<Longrightarrow> n \<le> int (length buf) \<Longrightarrow>
   idx = (k - 1 - i) mod int (length buf) \<Longrightarrow> out = rev (lastn (nat i) (rotate (nat k) buf)) \<Longrightarrow>
   snapshotLoop buf n i idx out = Inr (rev (lastn (nat n) (rotate (nat k) buf)))"
proof (induction buf n i idx out rule: snapshotLoop.induct)
  case (1 buf n i idx out)
  let ?c = "int (length buf)" and ?W = "rotate (nat k) buf"
  show ?case
  proof (cases "i < n")
    case False
    then have "i = n" using 1 by simp
    then show ?thesis using 1(8) by (subst snapshotLoop.simps) simp
  next
    case True
    have cpos: "0 < ?c" using 1(2,3) by linarith
    have inr: "0 \<le> idx \<and> idx < ?c" using 1(7) cpos by simp
    let ?idx2 = "(if idx - 1 < 0 then ?c - 1 else idx - 1)"
    let ?out1 = "out @ [buf ! nat idx]"
    have step: "snapshotLoop buf n i idx out = snapshotLoop buf n (i + 1) ?idx2 ?out1"
      using True inr by (subst snapshotLoop.simps) (simp add: Let_def)
    have idx2: "?idx2 = (k - 1 - (i + 1)) mod ?c"
    proof -
      have "(k - 1 - (i + 1)) mod ?c = (idx - 1) mod ?c"
        unfolding 1(7) by (simp add: mod_diff_left_eq algebra_simps)
      also have "\<dots> = ?idx2"
      proof (cases "idx - 1 < 0")
        case True
        then have "idx = 0" using inr by simp
        then show ?thesis using cpos by (simp add: zmod_minus1)
      next
        case False
        then show ?thesis using inr by simp
      qed
      finally show ?thesis by simp
    qed
    have ilt: "i < ?c" using True 1(6) by simp
    have "lastn (Suc (nat i)) ?W = ?W ! (length ?W - Suc (nat i)) # lastn (nat i) ?W"
      using ilt 1(4) by (intro lastn_Suc) simp
    moreover have "?W ! (length ?W - Suc (nat i)) = buf ! nat idx"
      using rotate_nth_back [OF 1(2,3,4) ilt] 1(7) by simp
    moreover have "nat (i + 1) = Suc (nat i)" using 1(4) by simp
    ultimately have out1: "?out1 = rev (lastn (nat (i + 1)) ?W)" using 1(8) by simp
    have "snapshotLoop buf n (i + 1) ?idx2 ?out1 = Inr (rev (lastn (nat n) ?W))"
    proof (rule "1.IH" [OF True _ refl refl refl 1(2,3)])
      show "\<not> \<not> (0 \<le> idx \<and> idx < ?c)" using inr by simp
      show "0 \<le> i + 1" using 1(4) by simp
      show "i + 1 \<le> n" using True by simp
      show "n \<le> ?c" by (rule 1(6))
      show "?idx2 = (k - 1 - (i + 1)) mod ?c" by (rule idx2)
      show "?out1 = rev (lastn (nat (i + 1)) ?W)" by (rule out1)
    qed
    with step show ?thesis by simp
  qed
qed

lemma snapshot_window:
  assumes "tapOk t" "0 \<le> n0"
  shows "snapshot t n0 = Inr (lastn (nat n0) (window t))"
proof (cases "buffer t = []")
  case True
  have "snapshotLoop (buffer t) 0 0 idx [] = Inr []" for idx
    by (subst snapshotLoop.simps) simp
  then show ?thesis using True assms(2) reverseLoop_rev [of "[] :: 'a frame list"]
    by (simp add: snapshot_def Let_def window_def lastn_def)
next
  case False
  let ?c = "int (length (buffer t))" and ?k = "nextIndex t"
  define n where "n = (if n0 > ?c then ?c else n0)"
  define idx where "idx = (if ?k - 1 < 0 then ?c - 1 else ?k - 1)"
  from False assms(1) have k: "0 \<le> ?k" "?k < ?c" by (auto simp: tapOk_def ringInv_def)
  have n: "0 \<le> n" "n \<le> ?c" using assms(2) by (auto simp: n_def)
  have idx: "idx = (?k - 1 - 0) mod ?c"
  proof (cases "?k = 0")
    case True
    then show ?thesis using k by (simp add: idx_def zmod_minus1)
  next
    case False
    then show ?thesis using k by (simp add: idx_def)
  qed
  have loop: "snapshotLoop (buffer t) n 0 idx [] = Inr (rev (lastn (nat n) (window t)))"
    unfolding window_def
    by (rule snapshotLoop_window [OF k _ n(1,2) idx]) (simp_all add: lastn_def)
  have "lastn (nat n) (window t) = lastn (nat n0) (window t)"
  proof (cases "n0 > ?c")
    case True
    then have "length (window t) \<le> nat n" "length (window t) \<le> nat n0"
      by (simp_all add: n_def window_def)
    then show ?thesis by (simp add: lastn_all)
  next
    case False
    then show ?thesis by (simp add: n_def)
  qed
  moreover have "snapshot t n0 = Inr (rev (rev (lastn (nat n) (window t))))"
  proof -
    have nn: "\<not> (if n0 > ?c then ?c else n0) < 0" using n(1) unfolding n_def by simp
    have "snapshot t n0 = (case snapshotLoop (buffer t) n 0 idx [] of
              Inl e \<Rightarrow> Inl e
            | Inr out \<Rightarrow> Inr (reverseLoop out 0 (int (length out) - 1)))"
      unfolding snapshot_def Let_def n_def idx_def by (simp only: nn if_False)
    also have "\<dots> = Inr (rev (rev (lastn (nat n) (window t))))"
      by (simp only: loop sum.case reverseLoop_rev)
    finally show ?thesis .
  qed
  ultimately show ?thesis by simp
qed

lemma streamLoop_success:
  "streamLoop t samples n i = Inr t' \<Longrightarrow> 0 \<le> i \<Longrightarrow> i < n \<Longrightarrow> n \<le> int (length samples) \<and> ringInv t"
proof (induction t samples n i rule: streamLoop.induct)
  case (1 t samples n i)
  have inr: "0 \<le> i \<and> i < int (length samples)"
    using 1(2,4) by (subst (asm) streamLoop.simps) (simp split: if_splits)
  have inv: "0 \<le> nextIndex t \<and> nextIndex t < int (length (buffer t))"
    using 1(2,4) by (subst (asm) streamLoop.simps) (simp split: if_splits)
  have step: "streamLoop (writeFrame t (samples ! nat i)) samples n (i + 1) = Inr t'"
    using 1(2,4) inr inv by (subst (asm) streamLoop.simps) simp
  show ?case
  proof (cases "i + 1 < n")
    case True
    have "n \<le> int (length samples) \<and> ringInv (writeFrame t (samples ! nat i))"
      using 1(3,4) inr inv True by (intro "1.IH" [OF _ _ _ step]) simp_all
    then show ?thesis using inv by (simp add: ringInv_def)
  next
    case False
    then show ?thesis using 1(4) inr inv by (simp add: ringInv_def)
  qed
qed

lemma window_length: "length (window t) = length (buffer t)"
  by (simp add: window_def)

lemma Stream_window:
  assumes "tapOk t" "Stream t samples n ok = Inr (t', n', ok')"
  shows "tapOk t' \<and> length (buffer t') = length (buffer t)
      \<and> window t' = lastn (length (buffer t)) (window t @ take (nat n) samples)"
proof (cases "n > 0")
  case False
  then have "t' = t" using assms(2) by (simp add: Stream_def)
  then show ?thesis using False assms(1) by (simp add: lastn_all window_length)
next
  case True
  then have loop: "streamLoop t samples n 0 = Inr t'"
    using assms(2) by (simp add: Stream_def split: sum.splits)
  from streamLoop_success [OF loop _ True] have b: "n \<le> int (length samples)" "ringInv t" by simp_all
  from streamLoop_window [OF b(2) _ b(1), of 0] loop show ?thesis
    by (simp add: tapOk_def)
qed

lemma Streams_window:
  "tapOk t \<Longrightarrow> Streams t calls = Inr t' \<Longrightarrow>
   tapOk t' \<and> length (buffer t') = length (buffer t)
      \<and> window t' = lastn (length (buffer t)) (window t @ pushed calls)"
proof (induction calls arbitrary: t)
  case Nil
  then show ?case by (simp add: pushed_def lastn_all window_length)
next
  case (Cons call calls)
  obtain samples n ok where call: "call = (samples, n, ok)" by (cases call)
  from Cons.prems(2) obtain t1 n1 ok1 where
    s1: "Stream t samples n ok = Inr (t1, n1, ok1)" and rest: "Streams t1 calls = Inr t'"
    by (auto simp: call split: sum.splits)
  note w1 = Stream_window [OF Cons.prems(1) s1]
  from Cons.IH [OF _ rest] w1 have "tapOk t'" "length (buffer t') = length (buffer t)"
    "window t' = lastn (length (buffer t)) (window t1 @ pushed calls)" by simp_all
  moreover have "pushed (call # calls) = take (nat n) samples @ pushed calls"
    by (simp add: pushed_def call)
  ultimately show ?case using w1 by (simp add: lastn_lastn_append)
qed

lemma Streams_total:
  "ringInv t \<Longrightarrow> sourceOk calls \<Longrightarrow> \<exists>t'. Streams t calls = Inr t'"
proof (induction calls arbitrary: t)
  case Nil
  then show ?case by simp
next
  case (Cons call calls)
  obtain samples n ok where call: "call = (samples, n, ok)" by (cases call)
  from Cons.prems(2) have le: "n \<le> int (length samples)" and ok: "sourceOk calls"
    by (simp_all add: sourceOk_def call)
  from streamLoop_window [OF Cons.prems(1) _ le, of 0]
  obtain t1 where t1: "streamLoop t samples n 0 = Inr t1" "ringInv t1" by auto
  have "\<exists>t1. Stream t samples n ok = Inr (t1, n, ok) \<and> ringInv t1"
    using t1 Cons.prems(1) by (simp add: Stream_def)
  then obtain t2 where t2: "Stream t samples n ok = Inr (t2, n, ok)" "ringInv t2" by blast
  from Cons.IH [OF t2(2) ok] obtain t' where "Streams t2 calls = Inr t'" by blast
  then show ?case using t2 by (simp add: call)
qed

lemma newVisualTap_window:
  assumes "newVisualTap ringSize = Inr t"
  shows "tapOk t" "length (buffer t) = nat ringSize" "window t = replicate (nat ringSize) (0, 0)"
    "0 \<le> ringSize" "0 < ringSize \<Longrightarrow> ringInv t"
proof -
  from assms have t: "t = \<lparr>buffer = replicate (nat ringSize) (0, 0), nextIndex = 0\<rparr>" and r: "0 \<le> ringSize"
    by (auto simp: newVisualTap_def split: if_splits)
  show "tapOk t" using r by (auto simp: t tapOk_def ringInv_def)
  show "length (buffer t) = nat ringSize" by (simp add: t)
  show "window t = replicate (nat ringSize) (0, 0)" by (simp add: t window_def)
  show "0 \<le> ringSize" by (rule r)
  show "0 < ringSize \<Longrightarrow> ringInv t" by (simp add: t ringInv_def)
qed

lemma snapshot_after_Streams:
  assumes "newVisualTap ringSize = Inr t" "Streams t calls = Inr t'" "0 \<le> n"
  shows "snapshot t' n = Inr (lastn (nat (min n ringSize)) (replicate (nat ringSize) (0, 0) @ pushed calls))"
proof -
  note nt = newVisualTap_window [OF assms(1)]
  note w = Streams_window [OF nt(1) assms(2)]
  let ?P = "replicate (nat ringSize) (0, 0) @ pushed calls"
  have "snapshot t' n = Inr (lastn (nat n) (lastn (nat ringSize) ?P))"
    using snapshot_window [of t' n] w nt assms(3) by simp
  moreover have "lastn (nat n) (lastn (nat ringSize) ?P) = lastn (nat (min n ringSize)) ?P"
  proof (cases "n \<le> ringSize")
    case True
    then show ?thesis by (simp add: lastn_lastn min_def nat_mono)
  next
    case False
    then have "length (lastn (nat ringSize) ?P) \<le> nat n" by (simp add: length_lastn)
    then show ?thesis using False by (simp add: lastn_all min_def)
  qed
  ultimately show ?thesis by simp
qed

lemma lastn_append_le: "k \<le> length ys \<Longrightarrow> lastn k (xs @ ys) = lastn k ys"
  by (simp add: lastn_def)

lemma lastn_replicate: "lastn k (replicate c x) = replicate (min k c) x"
  by (simp add: lastn_def min_def)

lemma newVisualTap_ok:
  "0 \<le> ringSize \<Longrightarrow> newVisualTap ringSize = Inr \<lparr>buffer = replicate (nat ringSize) (0, 0), nextIndex = 0\<rparr>"
  by (simp add: newVisualTap_def)

section \<open>Ring buffer: the claims\<close>

text \<open>
  C1. Take a tap of ring size \<open>ringSize > 0\<close> made by \<^verbatim>\<open>newVisualTap\<close> and any run of
  \<^verbatim>\<open>Stream\<close> calls in which the source keeps its contract. If the frames pushed so far number
  at least \<open>min n ringSize\<close>, then no call panics and \<^verbatim>\<open>snapshot(n)\<close> returns exactly the
  last \<open>min n ringSize\<close> pushed frames, oldest first. In particular, with ring size 4,
  pushing \<open>f1, \<dots>, f6\<close> one frame per call makes \<^verbatim>\<open>snapshot(4)\<close> equal \<open>[f3, f4, f5, f6]\<close>.
\<close>

theorem snapshot_returns_last_pushed:
  fixes calls :: "(('a::zero) frame list \<times> int \<times> bool) list" and f1 :: "'a frame"
  shows "(0 < ringSize \<and> sourceOk calls \<and> 0 \<le> n \<and> min n ringSize \<le> int (length (pushed calls)) \<longrightarrow>
     (\<exists>t t'. newVisualTap ringSize = Inr t \<and> Streams t calls = Inr t'
        \<and> snapshot t' n = Inr (lastn (nat (min n ringSize)) (pushed calls))))
   \<and> (\<exists>t t'. newVisualTap 4 = Inr t
        \<and> Streams t [([f1], 1, True), ([f2], 1, True), ([f3], 1, True),
                      ([f4], 1, True), ([f5], 1, True), ([f6], 1, True)] = Inr t'
        \<and> snapshot t' 4 = Inr [f3, f4, f5, f6])"
proof -
  have general: "\<exists>t t'. newVisualTap ringSize = Inr t \<and> Streams t calls = Inr t'
        \<and> snapshot t' n = Inr (lastn (nat (min n ringSize)) (pushed calls))"
    if h: "0 < ringSize" "sourceOk calls" "0 \<le> n" "min n ringSize \<le> int (length (pushed calls))"
    for ringSize n and calls :: "('a frame list \<times> int \<times> bool) list"
  proof -
    obtain t :: "'a visualTap" where t: "newVisualTap ringSize = Inr t"
      using h(1) newVisualTap_ok [of ringSize] by auto
    from newVisualTap_window(5) [OF t h(1)] Streams_total [OF _ h(2)]
    obtain t' where t': "Streams t calls = Inr t'" by blast
    have "nat (min n ringSize) \<le> length (pushed calls)" using h(4) by linarith
    then have "lastn (nat (min n ringSize)) (replicate (nat ringSize) (0, 0) @ pushed calls)
        = lastn (nat (min n ringSize)) (pushed calls)"
      by (rule lastn_append_le)
    with snapshot_after_Streams [OF t t' h(3)] t t' show ?thesis by auto
  qed
  let ?calls = "[([f1], 1, True), ([f2], 1, True), ([f3], 1, True),
                 ([f4], 1, True), ([f5], 1, True), ([f6], 1::int, True)]"
  have p: "pushed ?calls = [f1, f2, f3, f4, f5, f6]" by (simp add: pushed_def)
  have "sourceOk ?calls" by (simp add: sourceOk_def)
  from general [of 4 ?calls 4, OF _ this] have
    "\<exists>t t'. newVisualTap 4 = Inr t \<and> Streams t ?calls = Inr t'
        \<and> snapshot t' 4 = Inr (lastn (nat (min 4 4)) (pushed ?calls))"
    by (simp add: p)
  moreover have "lastn (nat (min 4 4)) (pushed ?calls) = [f3, f4, f5, f6]"
    by (simp add: p lastn_def)
  ultimately show ?thesis using general by auto
qed

text \<open>
  The hypotheses of C1 hold for a ring of size 4 fed a batch of two frames and a batch of
  three: \<^verbatim>\<open>snapshot(3)\<close> is the second batch.
\<close>

theorem snapshot_returns_last_pushed_witness:
  "0 < (4::int) \<and> sourceOk [([(1, 1), (2, 2)], 2, True), ([(3, 3), (4, 4), (5, 5 :: int)], 3, False)]
   \<and> (0::int) \<le> 3
   \<and> min 3 4 \<le> int (length (pushed [([(1, 1), (2, 2)], 2, True), ([(3, 3), (4, 4), (5, 5 :: int)], 3, False)]))
   \<and> (\<exists>t t'. newVisualTap 4 = Inr t
        \<and> Streams t [([(1, 1), (2, 2)], 2, True), ([(3, 3), (4, 4), (5, 5 :: int)], 3, False)] = Inr t'
        \<and> snapshot t' 3 = Inr [(3, 3), (4, 4), (5, 5)])"
  using snapshot_returns_last_pushed
    [where ringSize = 4 and n = 3
       and calls = "[([(1, 1), (2, 2)], 2, True), ([(3, 3), (4, 4), (5, 5 :: int)], 3, False)]",
     THEN conjunct1]
  by (simp add: sourceOk_def pushed_def lastn_def del: Streams.simps)


text \<open>
  C4, as stated, fails: a ring of size 4 into which nothing was ever pushed answers
  \<^verbatim>\<open>snapshot(2)\<close> with two zero frames, not with the empty sequence. The tap keeps no count
  of the frames written, so it cannot tell a slot never written from a slot holding silence.
\<close>

theorem snapshot_fresh_tap_counterexample:
  "newVisualTap 4 = Inr \<lparr>buffer = [(0, 0), (0, 0), (0, 0), (0, 0 :: int)], nextIndex = 0\<rparr>
   \<and> snapshot \<lparr>buffer = [(0, 0), (0, 0), (0, 0), (0, 0 :: int)], nextIndex = 0\<rparr> 2 = Inr [(0, 0), (0, 0)]
   \<and> snapshot \<lparr>buffer = [(0, 0), (0, 0), (0, 0), (0, 0 :: int)], nextIndex = 0\<rparr> 2 \<noteq> Inr []"
proof -
  let ?t = "\<lparr>buffer = [(0, 0), (0, 0), (0, 0), (0, 0 :: int)], nextIndex = 0\<rparr>"
  have n: "newVisualTap 4 = Inr ?t"
    by (simp add: newVisualTap_def numeral_eq_Suc)
  from snapshot_after_Streams [OF n, of "[]" ?t 2]
  have "snapshot ?t 2 = Inr [(0, 0), (0, 0)]"
    by (simp add: pushed_def lastn_def numeral_eq_Suc)
  with n show ?thesis by simp
qed

text \<open>
  C4, amended: on a tap into which no frames have ever been pushed, \<^verbatim>\<open>snapshot(n)\<close> for
  \<open>n \<ge> 0\<close> returns \<open>min n ringSize\<close> zero frames.
\<close>

theorem snapshot_fresh_tap_zero_frames:
  "newVisualTap ringSize = Inr t \<Longrightarrow> 0 \<le> n \<Longrightarrow>
   snapshot t n = Inr (replicate (nat (min n ringSize)) (0, 0))"
proof -
  assume t: "newVisualTap ringSize = Inr t" and n: "0 \<le> n"
  have "0 \<le> ringSize" by (rule newVisualTap_window(4) [OF t])
  then have "min (nat (min n ringSize)) (nat ringSize) = nat (min n ringSize)" by simp
  with snapshot_after_Streams [OF t _ n, of "[]" t] show ?thesis
    by (simp add: pushed_def lastn_replicate)
qed

text \<open>
  With the program's own numbers: ring size 8192, and the analyzer's \<^verbatim>\<open>snapshot(2048)\<close>.
\<close>

theorem snapshot_fresh_tap_zero_frames_witness:
  "newVisualTap 8192 = Inr \<lparr>buffer = replicate 8192 (0, 0 :: real), nextIndex = 0\<rparr> \<and> (0::int) \<le> 2048
   \<and> snapshot \<lparr>buffer = replicate 8192 (0, 0 :: real), nextIndex = 0\<rparr> 2048 = Inr (replicate 2048 (0, 0))"
proof -
  have n: "newVisualTap 8192 = Inr \<lparr>buffer = replicate 8192 (0, 0 :: real), nextIndex = 0\<rparr>"
    by (simp add: newVisualTap_def)
  from snapshot_fresh_tap_zero_frames [OF n, of 2048] n show ?thesis by simp
qed

lemma lastn_zero_fill:
  assumes "k \<le> c"
  shows "lastn k (replicate c z @ xs) = replicate (k - length xs) z @ lastn k xs"
proof (cases "k \<le> length xs")
  case True
  then show ?thesis by (simp add: lastn_append_le)
next
  case False
  then have "c + length xs - k \<le> c" "c - (c + length xs - k) = k - length xs"
    using assms by simp_all
  then show ?thesis using False by (simp add: lastn_def)
qed

text \<open>
  C10. For every \<open>n \<ge> 0\<close> and every tap state reached from \<^verbatim>\<open>newVisualTap\<close> by \<^verbatim>\<open>Stream\<close>
  calls (none included), \<^verbatim>\<open>snapshot(n)\<close> returns exactly \<open>min n ringSize\<close> frames: the last
  pushed frames, preceded by zero frames for the slots never written.
\<close>

theorem snapshot_length_and_zero_fill:
  assumes "newVisualTap ringSize = Inr t" and "Streams t calls = Inr t'" and "0 \<le> n"
  shows "\<exists>out. snapshot t' n = Inr out \<and> int (length out) = min n ringSize
      \<and> out = replicate (nat (min n ringSize) - length (pushed calls)) (0, 0)
               @ lastn (nat (min n ringSize)) (pushed calls)"
proof -
  let ?k = "nat (min n ringSize)"
  have r: "0 \<le> ringSize" by (rule newVisualTap_window(4) [OF assms(1)])
  then have k: "?k \<le> nat ringSize" by simp
  have "snapshot t' n = Inr (lastn ?k (replicate (nat ringSize) (0, 0) @ pushed calls))"
    by (rule snapshot_after_Streams [OF assms])
  moreover have "length (lastn ?k (replicate (nat ringSize) (0, 0) @ pushed calls)) = ?k"
    using k by (simp add: length_lastn)
  moreover have "int ?k = min n ringSize" using r assms(3) by simp
  ultimately show ?thesis using lastn_zero_fill [OF k] by simp
qed

text \<open>
  One frame pushed into a ring of size 4: \<^verbatim>\<open>snapshot(3)\<close> is two zero frames and the frame.
\<close>

theorem snapshot_length_and_zero_fill_witness:
  "newVisualTap 4 = Inr \<lparr>buffer = [(0, 0), (0, 0), (0, 0), (0, 0 :: int)], nextIndex = 0\<rparr>
   \<and> Streams \<lparr>buffer = [(0, 0), (0, 0), (0, 0), (0, 0 :: int)], nextIndex = 0\<rparr> [([(7, 8)], 1, True)]
       = Inr \<lparr>buffer = [(7, 8), (0, 0), (0, 0), (0, 0)], nextIndex = 1\<rparr>
   \<and> (0::int) \<le> 3
   \<and> snapshot \<lparr>buffer = [(7, 8), (0, 0), (0, 0), (0, 0 :: int)], nextIndex = 1\<rparr> 3
       = Inr [(0, 0), (0, 0), (7, 8)]"
proof -
  let ?t = "\<lparr>buffer = [(0, 0), (0, 0), (0, 0), (0, 0 :: int)], nextIndex = 0\<rparr>"
  let ?t' = "\<lparr>buffer = [(7, 8), (0, 0), (0, 0), (0, 0 :: int)], nextIndex = 1\<rparr>"
  have n: "newVisualTap 4 = Inr ?t"
    by (simp add: newVisualTap_def numeral_eq_Suc)
  have s: "Streams ?t [([(7, 8)], 1, True)] = Inr ?t'"
    by (simp add: Stream_def streamLoop.simps writeFrame_def)
  from snapshot_length_and_zero_fill [OF n s, of 3] n s show ?thesis
    by (auto simp: pushed_def lastn_def numeral_eq_Suc)
qed

section \<open>Band energies: the loops\<close>

lemma sumSquaresLoop_eq:
  "stop \<le> length samples \<Longrightarrow> s \<le> stop \<Longrightarrow>
   sumSquaresLoop samples s stop acc
     = acc + (\<Sum>f\<leftarrow>take (stop - s) (drop s samples). mono f * mono f)"
proof (induction samples s stop acc rule: sumSquaresLoop.induct)
  case (1 samples s stop acc)
  show ?case
  proof (cases "s < stop")
    case False
    then show ?thesis by (subst sumSquaresLoop.simps) simp
  next
    case True
    let ?m = "(fst (samples ! s) + snd (samples ! s)) * 0.5"
    have "sumSquaresLoop samples s stop acc = sumSquaresLoop samples (s + 1) stop (acc + ?m * ?m)"
      using True by (subst sumSquaresLoop.simps) (simp add: Let_def)
    also have "\<dots> = acc + ?m * ?m
        + (\<Sum>f\<leftarrow>take (stop - (s + 1)) (drop (s + 1) samples). mono f * mono f)"
      using True 1(2) by (intro "1.IH" [OF True refl]) simp_all
    also have "take (stop - s) (drop s samples)
        = samples ! s # take (stop - (s + 1)) (drop (s + 1) samples)"
    proof -
      have "s < length samples" using True 1(2) by simp
      then have "drop s samples = samples ! s # drop (Suc s) samples"
        by (simp add: Cons_nth_drop_Suc)
      moreover have "stop - s = Suc (stop - (s + 1))" using True by simp
      ultimately show ?thesis by simp
    qed
    then have "acc + ?m * ?m + (\<Sum>f\<leftarrow>take (stop - (s + 1)) (drop (s + 1) samples). mono f * mono f)
        = acc + (\<Sum>f\<leftarrow>take (stop - s) (drop s samples). mono f * mono f)"
      by (simp add: mono_def)
    finally show ?thesis .
  qed
qed

lemma segment_rms:
  assumes "start < length samples" "0 < seg"
  defines "stop \<equiv> (if start + seg > length samples then length samples else start + seg)"
  shows "sqrt (sumSquaresLoop samples start stop 0 / real (stop - start))
       = rmsMono (take seg (drop start samples))"
proof -
  have le: "stop \<le> length samples" "start \<le> stop" using assms(1) by (auto simp: stop_def)
  have "take (stop - start) (drop start samples) = take seg (drop start samples)"
    by (auto simp: stop_def)
  moreover have "length (take seg (drop start samples)) = stop - start"
    by (auto simp: stop_def)
  ultimately show ?thesis
    by (simp add: sumSquaresLoop_eq [OF le] rmsMono_def)
qed

lemma bandLoop_nth:
  "length bands = nBands \<Longrightarrow> 0 < seg \<Longrightarrow>
   length (bandLoop samples seg i bands) = nBands \<and>
   (\<forall>j<nBands. bandLoop samples seg i bands ! j =
      (if i \<le> j \<and> j * seg < length samples
       then smooth (bands ! j) (take seg (drop (j * seg) samples)) else bands ! j))"
proof (induction samples seg i bands rule: bandLoop.induct)
  case (1 samples seg i bands)
  show ?case
  proof (cases "i < nBands")
    case False
    then show ?thesis using 1(2) by (subst (1 2) bandLoop.simps) simp
  next
    case True
    note i = True
    show ?thesis
    proof (cases "i * seg \<ge> length samples")
      case True
      have "bandLoop samples seg i bands = bands"
        using i True by (subst bandLoop.simps) (simp add: Let_def)
      moreover have "\<not> j * seg < length samples" if "i \<le> j" for j
      proof -
        from that have "i * seg \<le> j * seg" by (rule mult_le_mono1)
        with True show ?thesis by linarith
      qed
      ultimately show ?thesis using 1(2) by auto
    next
      case False
      define stop where "stop = (if i * seg + seg > length samples then length samples else i * seg + seg)"
      define bands' where "bands' = bands[i := smoothingFactor * bands ! i
          + (1 - smoothingFactor) * (sqrt (sumSquaresLoop samples (i * seg) stop 0 / real (stop - i * seg))) powr 0.3]"
      have step: "bandLoop samples seg i bands = bandLoop samples seg (i + 1) bands'"
        using i False by (subst bandLoop.simps) (simp add: Let_def bands'_def stop_def)
      have b': "bands' = bands[i := smooth (bands ! i) (take seg (drop (i * seg) samples))]"
        using segment_rms [of "i * seg" samples seg] False 1(3)
        by (simp add: bands'_def stop_def smooth_def)
      have len': "length bands' = nBands" using 1(2) by (simp add: bands'_def)
      have IH: "length (bandLoop samples seg (i + 1) bands') = nBands \<and>
        (\<forall>j<nBands. bandLoop samples seg (i + 1) bands' ! j =
          (if i + 1 \<le> j \<and> j * seg < length samples
           then smooth (bands' ! j) (take seg (drop (j * seg) samples)) else bands' ! j))"
        using i False len' 1(3)
        by (intro "1.IH" [OF i refl refl _ refl refl refl refl, folded stop_def, folded bands'_def]) simp_all
      show ?thesis
      proof (intro conjI allI impI)
        show "length (bandLoop samples seg i bands) = nBands" using IH step by simp
      next
        fix j assume j: "j < nBands"
        consider "j < i" | "j = i" | "i < j" by linarith
        then show "bandLoop samples seg i bands ! j =
            (if i \<le> j \<and> j * seg < length samples
             then smooth (bands ! j) (take seg (drop (j * seg) samples)) else bands ! j)"
        proof cases
          case 1
          then show ?thesis using IH j step by (simp add: b')
        next
          case 2
          then show ?thesis using IH j step False 1(2) by (simp add: b')
        next
          case 3
          then show ?thesis using IH j step by (simp add: b')
        qed
      qed
    qed
  qed
qed

lemma segmentSizeOf_eq: "segmentSizeOf n = max 1 (n div nBands)"
proof -
  have "go_int (max 1 (real n / real nBands)) = \<lfloor>max 1 (real n / real nBands)\<rfloor>"
    by (simp add: go_int_def max_def)
  also have "\<dots> = max 1 \<lfloor>real n / real nBands\<rfloor>"
    by (simp add: max_def floor_mono)
  also have "\<dots> = max 1 (int (n div nBands))"
    by (simp add: floor_divide_of_nat_eq)
  finally show ?thesis by (simp add: segmentSizeOf_def max_def)
qed

lemma updateBands_length:
  assumes "length bands = nBands" "samples \<noteq> []"
  shows "length (updateBands samples bands) = nBands"
proof -
  have pos: "0 < segmentSizeOf (length samples)" by (simp add: segmentSizeOf_eq)
  from bandLoop_nth [OF assms(1) pos, of samples 0] assms show ?thesis
    by (simp add: updateBands_def)
qed

lemma updateBands_nth:
  assumes "length bands = nBands" "samples \<noteq> []" "j < nBands"
  shows "updateBands samples bands ! j =
      (if j * segmentSizeOf (length samples) < length samples
       then smooth (bands ! j) (take (segmentSizeOf (length samples)) (drop (j * segmentSizeOf (length samples)) samples))
       else bands ! j)"
proof -
  have pos: "0 < segmentSizeOf (length samples)" by (simp add: segmentSizeOf_eq)
  from bandLoop_nth [OF assms(1) pos, of samples 0] assms show ?thesis
    by (simp add: updateBands_def)
qed

lemma updateAudioData_bands:
  "tap g = Some t \<Longrightarrow> snapshot t 2048 = Inr samples \<Longrightarrow>
   updateAudioData g = Inr (g\<lparr>audioData := updateBands samples (audioData g)\<rparr>)"
  by (simp add: updateAudioData_def)

lemma rmsMono_replicate: "0 < m \<Longrightarrow> rmsMono (replicate m f) = \<bar>mono f\<bar>"
  by (simp add: rmsMono_def map_replicate_const sum_list_replicate real_sqrt_mult)

lemma specSize_eq:
  assumes "0 < n" "n \<le> nBands \<or> n mod nBands = 0"
  shows "nat \<lceil>real n / real nBands\<rceil> = max 1 (n div nBands)"
proof -
  from assms(2) show ?thesis
  proof
    assume le: "n \<le> nBands"
    have "\<lceil>real n / real nBands\<rceil> = 0 + 1"
      using assms(1) le by (intro ceiling_eq) (simp_all add: nBands_def)
    moreover have "n div nBands \<le> 1"
      using le by (simp add: nBands_def div_le_mono [of n 64 64, simplified])
    ultimately show ?thesis by (simp add: max_def)
  next
    assume "n mod nBands = 0"
    then obtain q where q: "n = nBands * q" by (auto simp: mod_eq_0_iff_dvd)
    then have "0 < q" using assms(1) by (cases q) auto
    moreover have "real n / real nBands = real q" by (simp add: q nBands_def)
    moreover have "n div nBands = q" by (simp add: q nBands_def)
    ultimately show ?thesis by (simp add: max_def)
  qed
qed

lemma specUpdate_nth:
  "i < nBands \<Longrightarrow> specUpdate samples bands ! i =
     (if specSegment samples i = [] then bands ! i else smooth (bands ! i) (specSegment samples i))"
  by (simp add: specUpdate_def)

lemma updateBands_eq_specUpdate:
  assumes "length bands = nBands" "samples \<noteq> []"
    and "length samples \<le> nBands \<or> length samples mod nBands = 0"
  shows "updateBands samples bands = specUpdate samples bands"
proof (rule nth_equalityI)
  show "length (updateBands samples bands) = length (specUpdate samples bands)"
    using updateBands_length [OF assms(1,2)] by (simp add: specUpdate_def nBands_def)
next
  fix i assume "i < length (updateBands samples bands)"
  then have i: "i < nBands" using updateBands_length [OF assms(1,2)] by (simp add: nBands_def)
  let ?sz = "segmentSizeOf (length samples)"
  have sz: "nat \<lceil>real (length samples) / real nBands\<rceil> = ?sz"
    using specSize_eq [OF _ assms(3)] assms(2) by (simp add: segmentSizeOf_eq)
  have pos: "0 < ?sz" by (simp add: segmentSizeOf_eq)
  have seg: "specSegment samples i = take ?sz (drop (i * ?sz) samples)"
    by (simp add: specSegment_def Let_def sz)
  have "specSegment samples i = [] \<longleftrightarrow> \<not> i * ?sz < length samples"
    using pos by (auto simp: seg)
  then show "updateBands samples bands ! i = specUpdate samples bands ! i"
    using updateBands_nth [OF assms(1,2) i] specUpdate_nth [OF i] by (simp add: seg)
qed

section \<open>Band energies: the claims\<close>

text \<open>
  C2, as stated, fails: the segment size is not \<open>\<lceil>N / 64\<rceil>\<close>. On a snapshot of 65 silent
  frames the code takes segments of one frame, so band 63 reads frame 63 and decays from 1
  to 0.6; with segments of \<open>\<lceil>65 / 64\<rceil> = 2\<close> frames, segment 63 would be empty and the
  band would keep the value 1.
\<close>

theorem updateBands_ceil_counterexample:
  "updateBands (replicate 65 (0, 0)) (replicate 64 1) ! 63 = 0.6
   \<and> specUpdate (replicate 65 (0, 0)) (replicate 64 1) ! 63 = 1
   \<and> segmentSizeOf 65 = 1 \<and> nat \<lceil>real 65 / real nBands\<rceil> = 2"
proof -
  have s: "segmentSizeOf 65 = 1" by (simp add: segmentSizeOf_eq nBands_def)
  have "\<lceil>(65::real) / real nBands\<rceil> = 1 + 1"
    by (intro ceiling_eq) (simp_all add: nBands_def)
  then have c: "\<lceil>(65::real) / real nBands\<rceil> = 2" by simp
  have "updateBands (replicate 65 (0, 0)) (replicate 64 1) ! 63 = smooth 1 (replicate 1 (0, 0))"
    using updateBands_nth [of "replicate 64 1" "replicate 65 (0, 0)" 63]
    by (simp add: s nBands_def)
  also have "\<dots> = 0.6"
    by (simp add: smooth_def rmsMono_def mono_def smoothingFactor_def)
  finally have 1: "updateBands (replicate 65 (0, 0)) (replicate 64 1) ! 63 = 0.6" .
  have "specSegment (replicate 65 (0, 0)) 63 = []"
    by (simp add: specSegment_def Let_def c)
  then have 2: "specUpdate (replicate 65 (0, 0)) (replicate 64 1) ! 63 = 1"
    by (simp add: specUpdate_nth nBands_def)
  from 1 2 s c show ?thesis by simp
qed

text \<open>
  C2, amended: for every non-empty snapshot of \<open>N\<close> frames and every band state of 64
  values, the segment size is \<open>max 1 \<lfloor>N / 64\<rfloor>\<close>; band \<open>i\<close> whose segment starts inside the
  snapshot becomes \<open>smoothingFactor * previous + (1 - smoothingFactor) * rms powr 0.3\<close>, with
  \<open>rms\<close> the root mean square of the mono mixes of the segment and \<open>smoothingFactor = 0.6\<close>;
  the other bands keep their value. When \<open>N \<le> 64\<close> or 64 divides \<open>N\<close> (as for the 2048 frames
  the program asks for), this is the update the specification describes.
\<close>

theorem updateBands_segments:
  assumes "length bands = nBands" and "samples \<noteq> []"
  shows "length (updateBands samples bands) = nBands
     \<and> (\<forall>i<nBands. updateBands samples bands ! i =
          (if i * max 1 (length samples div nBands) < length samples
           then smoothingFactor * bands ! i + (1 - smoothingFactor)
                  * rmsMono (take (max 1 (length samples div nBands))
                               (drop (i * max 1 (length samples div nBands)) samples)) powr 0.3
           else bands ! i))
     \<and> smoothingFactor = 0.6
     \<and> (length samples \<le> nBands \<or> length samples mod nBands = 0 \<longrightarrow>
          updateBands samples bands = specUpdate samples bands)"
proof (intro conjI allI impI)
  show "length (updateBands samples bands) = nBands" by (rule updateBands_length [OF assms])
  show "smoothingFactor = 0.6" by (simp add: smoothingFactor_def)
  show "updateBands samples bands = specUpdate samples bands"
    if "length samples \<le> nBands \<or> length samples mod nBands = 0"
    by (rule updateBands_eq_specUpdate [OF assms that])
  fix i assume "i < nBands"
  from updateBands_nth [OF assms this]
  show "updateBands samples bands ! i =
          (if i * max 1 (length samples div nBands) < length samples
           then smoothingFactor * bands ! i + (1 - smoothingFactor)
                  * rmsMono (take (max 1 (length samples div nBands))
                               (drop (i * max 1 (length samples div nBands)) samples)) powr 0.3
           else bands ! i)"
    by (simp add: segmentSizeOf_eq smooth_def)
qed


text \<open>A snapshot of 128 silent frames on bands all at 1: segments of two frames.\<close>

theorem updateBands_segments_witness:
  "length (replicate 64 (1::real)) = nBands \<and> replicate 128 (0::real, 0::real) \<noteq> []
   \<and> length (replicate 128 (0::real, 0::real)) mod nBands = 0
   \<and> updateBands (replicate 128 (0, 0)) (replicate 64 1) ! 5 = 0.6
   \<and> updateBands (replicate 128 (0, 0)) (replicate 64 1) = specUpdate (replicate 128 (0, 0)) (replicate 64 1)"
proof -
  note th = updateBands_segments [of "replicate 64 1" "replicate 128 (0, 0)"]
  have h: "length (replicate 64 (1::real)) = nBands" "replicate 128 (0::real, 0::real) \<noteq> []"
    by (simp_all add: nBands_def)
  have m: "length (replicate 128 (0::real, 0::real)) mod nBands = 0" by (simp add: nBands_def)
  from th [OF h] m have
    eq: "updateBands (replicate 128 (0, 0)) (replicate 64 1) = specUpdate (replicate 128 (0, 0)) (replicate 64 1)"
    by blast
  from th [OF h] have "\<forall>i<nBands. updateBands (replicate 128 (0, 0)) (replicate 64 1) ! i =
          (if i * max 1 (128 div nBands) < 128
           then smoothingFactor * replicate 64 1 ! i + (1 - smoothingFactor)
                  * rmsMono (take (max 1 (128 div nBands))
                               (drop (i * max 1 (128 div nBands)) (replicate 128 (0, 0)))) powr 0.3
           else replicate 64 1 ! i)"
    by simp
  then have "updateBands (replicate 128 (0, 0)) (replicate 64 1) ! 5 = 0.6"
    by (simp add: nBands_def rmsMono_def mono_def smoothingFactor_def)
  with h m eq show ?thesis by simp
qed

lemma powr_1024: "(1024::real) powr 0.3 = 8"
proof -
  have "(1024::real) = 2 powr 10" by simp
  then have "(1024::real) powr 0.3 = (2 powr 10) powr 0.3" by simp
  also have "\<dots> = 2 powr 3" by (simp only: powr_powr) simp
  also have "\<dots> = 8" by simp
  finally show ?thesis .
qed

text \<open>
  C3, as stated, fails: nothing clamps the bands. From bands at 0, a snapshot of 2048 frames
  of amplitude 1024 gives \<open>rms = 1024\<close>, \<open>1024 powr 0.3 = 8\<close> and band 0 becomes
  \<open>0.4 * 8 = 3.2\<close>.
\<close>

theorem updateBands_unclamped_counterexample:
  "updateBands (replicate 2048 (1024, 1024)) (replicate 64 0) ! 0 = 3.2
   \<and> \<not> bandsInRange (updateBands (replicate 2048 (1024, 1024)) (replicate 64 0))"
proof -
  let ?r = "updateBands (replicate 2048 (1024, 1024)) (replicate 64 0)"
  have s: "segmentSizeOf 2048 = 32" by (simp add: segmentSizeOf_eq nBands_def)
  have "?r ! 0 = smooth 0 (replicate 32 (1024, 1024))"
    using updateBands_nth [of "replicate 64 0" "replicate 2048 (1024, 1024)" 0]
    by (simp add: s nBands_def)
  also have "\<dots> = 3.2"
    by (simp add: smooth_def rmsMono_replicate mono_def smoothingFactor_def powr_1024)
  finally have v: "?r ! 0 = 3.2" .
  have "length ?r = nBands" by (rule updateBands_length) (simp_all add: nBands_def)
  then have mem: "?r ! 0 \<in> set ?r" by (simp add: nBands_def)
  have "\<not> ?r ! 0 \<le> 1" by (simp add: v)
  with mem have "\<not> bandsInRange ?r" unfolding bandsInRange_def list_all_iff by blast
  with v show ?thesis by simp
qed

lemma rmsMono_range:
  assumes "framesInRange seg" "seg \<noteq> []"
  shows "0 \<le> rmsMono seg \<and> rmsMono seg \<le> 1"
proof -
  have m: "mono f * mono f \<le> 1" if "f \<in> set seg" for f
  proof -
    from that assms(1) have "\<bar>fst f\<bar> \<le> 1" "\<bar>snd f\<bar> \<le> 1"
      by (auto simp: framesInRange_def list_all_iff)
    then have "\<bar>mono f\<bar> \<le> 1" by (simp add: mono_def abs_le_iff)
    then have "\<bar>mono f\<bar> * \<bar>mono f\<bar> \<le> 1 * 1" by (intro mult_mono) simp_all
    then show ?thesis by (simp add: abs_mult_self_eq)
  qed
  have "(\<Sum>f\<leftarrow>seg. mono f * mono f) \<le> (\<Sum>f\<leftarrow>seg. 1)"
    by (rule sum_list_mono) (rule m)
  then have "(\<Sum>f\<leftarrow>seg. mono f * mono f) \<le> real (length seg)"
    by (simp add: sum_list_triv)
  moreover have "0 < real (length seg)" using assms(2) by simp
  ultimately have "(\<Sum>f\<leftarrow>seg. mono f * mono f) / real (length seg) \<le> 1" by simp
  then have "rmsMono seg \<le> 1" by (simp add: rmsMono_def)
  moreover have "0 \<le> (\<Sum>f\<leftarrow>seg. mono f * mono f)" by (rule sum_list_nonneg) auto
  then have "0 \<le> rmsMono seg" by (simp add: rmsMono_def)
  ultimately show ?thesis by simp
qed

lemma smooth_range:
  assumes "framesInRange seg" "seg \<noteq> []" "0 \<le> prev" "prev \<le> 1"
  shows "0 \<le> smooth prev seg \<and> smooth prev seg \<le> 1"
proof -
  from rmsMono_range [OF assms(1,2)] have r: "0 \<le> rmsMono seg" "rmsMono seg \<le> 1" by simp_all
  have p0: "0 \<le> rmsMono seg powr 0.3" by simp
  have p1: "rmsMono seg powr 0.3 \<le> 1" using r by (intro powr_le1) simp_all
  have "smooth prev seg = 0.6 * prev + 0.4 * rmsMono seg powr 0.3"
    by (simp add: smooth_def smoothingFactor_def)
  with p0 p1 assms(3,4) show ?thesis by simp
qed

lemma updateBands_list_all:
  assumes bands: "list_all P bands" and zero: "P 0"
    and step: "\<And>prev seg. P prev \<Longrightarrow> seg \<noteq> [] \<Longrightarrow> set seg \<subseteq> set samples \<Longrightarrow> P (smooth prev seg)"
  shows "list_all P (updateBands samples bands)"
proof (cases "samples = []")
  case True
  then show ?thesis using bands by (simp add: updateBands_def)
next
  case False
  define bands1 where "bands1 = (if length bands \<noteq> nBands then replicate nBands 0 else bands)"
  have u: "updateBands samples bands = updateBands samples bands1"
    using False by (simp add: updateBands_def bands1_def)
  have len: "length bands1 = nBands" by (simp add: bands1_def)
  have b1: "P (bands1 ! j)" if "j < nBands" for j
    using that bands zero len
    by (cases "length bands \<noteq> nBands") (auto simp: bands1_def list_all_length)
  let ?sz = "segmentSizeOf (length samples)"
  have pos: "0 < ?sz" by (simp add: segmentSizeOf_eq)
  have "P (updateBands samples bands1 ! j)" if j: "j < nBands" for j
  proof (cases "j * ?sz < length samples")
    case True
    let ?seg = "take ?sz (drop (j * ?sz) samples)"
    have "set ?seg \<subseteq> set samples"
      by (meson set_take_subset set_drop_subset subset_trans)
    moreover have "?seg \<noteq> []" using True pos by simp
    ultimately have "P (smooth (bands1 ! j) ?seg)" using b1 [OF j] by (intro step)
    then show ?thesis using updateBands_nth [OF len False j] True by simp
  next
    case False
    then show ?thesis using b1 [OF j] updateBands_nth [OF len \<open>samples \<noteq> []\<close> j] by simp
  qed
  then show ?thesis
    using updateBands_length [OF len False] by (simp add: u list_all_length)
qed

text \<open>
  C3, amended: for every snapshot whose frame amplitudes are finite numbers, band values
  that are not negative before the call are not negative after it; when moreover every
  frame amplitude of the snapshot lies in \<open>[-1, 1]\<close> and the band values lie in \<open>[0, 1]\<close>
  before the call, they lie in \<open>[0, 1]\<close> after it. The frames of the model are pairs of
  reals, so the statement is about finite amplitudes only: a NaN or infinite amplitude,
  which \<^verbatim>\<open>float64\<close> has and the reals have not, can make a band NaN, and nothing is
  said of such a snapshot.
\<close>

theorem updateBands_in_range:
  "(bandsNonneg bands \<longrightarrow> bandsNonneg (updateBands samples bands))
   \<and> (framesInRange samples \<and> bandsInRange bands \<longrightarrow> bandsInRange (updateBands samples bands))"
proof (intro conjI impI)
  assume "bandsNonneg bands"
  then show "bandsNonneg (updateBands samples bands)"
    unfolding bandsNonneg_def
    by (rule updateBands_list_all) (simp_all add: smooth_def smoothingFactor_def)
next
  assume h: "framesInRange samples \<and> bandsInRange bands"
  have "0 \<le> smooth prev seg \<and> smooth prev seg \<le> 1"
    if "0 \<le> prev \<and> prev \<le> 1" "seg \<noteq> []" "set seg \<subseteq> set samples" for prev seg
  proof -
    have "framesInRange seg" using h that(3) by (auto simp: framesInRange_def list_all_iff)
    then show ?thesis using that by (intro smooth_range) simp_all
  qed
  with h show "bandsInRange (updateBands samples bands)"
    unfolding bandsInRange_def by (intro updateBands_list_all) simp_all
qed

text \<open>Two frames in range, on bands all at one half.\<close>

theorem updateBands_in_range_witness:
  "bandsNonneg (replicate 64 0.5) \<and> framesInRange [(1, - 1), (0.5, 0.25)]
   \<and> bandsInRange (replicate 64 0.5)
   \<and> bandsNonneg (updateBands [(1, - 1), (0.5, 0.25)] (replicate 64 0.5))
   \<and> bandsInRange (updateBands [(1, - 1), (0.5, 0.25)] (replicate 64 0.5))"
proof -
  have n: "bandsNonneg (replicate 64 0.5)" by (simp add: bandsNonneg_def list_all_iff)
  have f: "framesInRange [(1, - 1), (0.5, 0.25)]" by (simp add: framesInRange_def)
  have b: "bandsInRange (replicate 64 0.5)" by (simp add: bandsInRange_def list_all_iff)
  from updateBands_in_range [of "replicate 64 0.5" "[(1, - 1), (0.5, 0.25)]"] n f b
  show ?thesis by blast
qed

lemma updateBands_silence:
  assumes "length bands = nBands" "nBands \<le> n"
  shows "updateBands (replicate n (0, 0)) bands = map (\<lambda>b. smoothingFactor * b) bands"
proof (rule nth_equalityI)
  have ne: "replicate n (0::real, 0::real) \<noteq> []" using assms(2) by (auto simp: nBands_def)
  show "length (updateBands (replicate n (0, 0)) bands) = length (map (\<lambda>b. smoothingFactor * b) bands)"
    using updateBands_length [OF assms(1) ne] assms(1) by simp
  fix j assume "j < length (updateBands (replicate n (0, 0)) bands)"
  then have j: "j < nBands" using updateBands_length [OF assms(1) ne] by simp
  let ?sz = "segmentSizeOf n"
  have sz: "?sz = n div nBands" "0 < ?sz"
    using assms(2) by (simp_all add: segmentSizeOf_eq max_def nBands_def div_greater_zero_iff)
  have "Suc j * ?sz \<le> nBands * ?sz" using j by (intro mult_le_mono1) simp
  also have "\<dots> \<le> n" by (simp add: sz(1))
  finally have lt: "j * ?sz < n" using sz(2) by simp
  then have "min ?sz (n - j * ?sz) > 0" using sz(2) by simp
  then have "smooth (bands ! j) (replicate (min ?sz (n - j * ?sz)) (0, 0)) = smoothingFactor * bands ! j"
    by (simp add: smooth_def rmsMono_replicate mono_def)
  then show "updateBands (replicate n (0, 0)) bands ! j = map (\<lambda>b. smoothingFactor * b) bands ! j"
    using updateBands_nth [OF assms(1) ne j] lt j assms(1) by simp
qed

lemma updateBands_silence_iter:
  assumes "length bands = nBands" "nBands \<le> n"
  shows "(updateBands (replicate n (0, 0)) ^^ k) bands = map (\<lambda>b. smoothingFactor ^ k * b) bands"
proof (induction k)
  case 0
  then show ?case by (simp add: map_idI)
next
  case (Suc k)
  have "length (map (\<lambda>b. smoothingFactor ^ k * b) bands) = nBands" using assms(1) by simp
  from updateBands_silence [OF this assms(2)] Suc show ?case
    by (simp add: mult.assoc)
qed

text \<open>
  C9. On a snapshot of \<open>n \<ge> 64\<close> all-zero frames (every one of the 64 segments has frames),
  each band value becomes \<open>smoothingFactor\<close> times its previous value, for every prior state
  of the 64 bands; after \<open>k\<close> such updates it is \<open>smoothingFactor ^ k\<close> times the initial
  value, which tends to 0. \<open>smoothingFactor\<close> is 0.6.
\<close>

theorem silence_decay:
  assumes "length bands = nBands" and "nBands \<le> n"
  shows "updateBands (replicate n (0, 0)) bands = map (\<lambda>b. smoothingFactor * b) bands
     \<and> (updateBands (replicate n (0, 0)) ^^ k) bands = map (\<lambda>b. smoothingFactor ^ k * b) bands
     \<and> smoothingFactor = 0.6
     \<and> (\<forall>i<nBands. (\<lambda>k. ((updateBands (replicate n (0, 0)) ^^ k) bands) ! i) \<longlonglongrightarrow> 0)"
proof (intro conjI allI impI)
  show "updateBands (replicate n (0, 0)) bands = map (\<lambda>b. smoothingFactor * b) bands"
    by (rule updateBands_silence [OF assms])
  show "(updateBands (replicate n (0, 0)) ^^ k) bands = map (\<lambda>b. smoothingFactor ^ k * b) bands"
    by (rule updateBands_silence_iter [OF assms])
  show "smoothingFactor = 0.6" by (simp add: smoothingFactor_def)
  fix i assume i: "i < nBands"
  have "(\<lambda>k. smoothingFactor ^ k) \<longlonglongrightarrow> 0"
    by (rule LIMSEQ_realpow_zero) (simp_all add: smoothingFactor_def)
  then have "(\<lambda>k. smoothingFactor ^ k * bands ! i) \<longlonglongrightarrow> 0"
    by (rule tendsto_mult_left_zero)
  moreover have "((updateBands (replicate n (0, 0)) ^^ k) bands) ! i = smoothingFactor ^ k * bands ! i" for k
    using i assms(1) by (simp add: updateBands_silence_iter [OF assms])
  ultimately show "(\<lambda>k. ((updateBands (replicate n (0, 0)) ^^ k) bands) ! i) \<longlonglongrightarrow> 0"
    by simp
qed

text \<open>Two silent updates of 2048 frames take bands at 1 to 0.6 and then to 0.36.\<close>

theorem silence_decay_witness:
  "length (replicate 64 (1::real)) = nBands \<and> nBands \<le> 2048
   \<and> updateBands (replicate 2048 (0, 0)) (replicate 64 1) = replicate 64 0.6
   \<and> (updateBands (replicate 2048 (0, 0)) ^^ 2) (replicate 64 1) = replicate 64 0.36"
proof -
  have h: "length (replicate 64 (1::real)) = nBands" "nBands \<le> 2048" by (simp_all add: nBands_def)
  from silence_decay [OF h, of 2] h show ?thesis
    by (simp add: smoothingFactor_def power2_eq_square)
qed

section \<open>Position tracking: arithmetic and the seek paths\<close>

lemma wrap64_id: "- (2 ^ 63) \<le> x \<Longrightarrow> x < 2 ^ 63 \<Longrightarrow> wrap64 x = x"
  by (simp add: wrap64_def)

lemma sdiv_nonneg: "0 \<le> a \<Longrightarrow> 0 < b \<Longrightarrow> a sdiv b = a div (b::int)"
  by (cases "a = 0") (simp_all add: signed_divide_int_def)

lemma sampleRateN_second:
  assumes "0 < sr" "sr * second < 2 ^ 63"
  shows "sampleRateN sr second = sr"
proof -
  have a: "wrap64 (second * sr) = second * sr"
    using assms by (intro wrap64_id) (simp_all add: second_def mult.commute)
  have "(second * sr) sdiv second = sr"
    using assms(1) by (simp add: sdiv_nonneg second_def)
  moreover have "wrap64 sr = sr" using assms by (intro wrap64_id) (simp_all add: second_def)
  ultimately show ?thesis by (simp add: sampleRateN_def a)
qed

lemma samplesToDuration_eq:
  assumes "0 < sr" "sr * second < 2 ^ 63" "0 \<le> x" "x * second < 2 ^ 63"
  shows "samplesToDuration x sr = Inr ((x * second) div sr)"
proof -
  have a: "wrap64 (x * second) = x * second"
    using assms(3,4) by (intro wrap64_id) (simp_all add: second_def)
  have b: "(x * second) sdiv sr = (x * second) div sr"
    using assms(1,3) by (intro sdiv_nonneg) (simp_all add: second_def)
  have "0 \<le> (x * second) div sr" using assms(1,3) by (simp add: second_def pos_imp_zdiv_nonneg_iff)
  moreover have "(x * second) div sr \<le> x * second"
    using assms(1,3) by (cases "x = 0") (simp_all add: int_div_le_self second_def)
  ultimately have "wrap64 ((x * second) div sr) = (x * second) div sr"
    using assms(4) by (intro wrap64_id) simp_all
  then show ?thesis using assms(1)
    by (simp add: samplesToDuration_def go_div_def sampleRateN_second [OF assms(1,2)] a b)
qed

lemma seekToPosition_debounced:
  "now1 - lastSeekTime g < 50 * millisecond \<Longrightarrow> seekToPosition g now1 now2 pos = Inr g"
  by (simp add: seekToPosition_def split: option.splits)

lemma seekToPosition_failure:
  assumes "streamer g = Some s" "\<not> now1 - lastSeekTime g < 50 * millisecond"
    "Seek s (seekTarget g s pos) = Some err"
  shows "seekToPosition g now1 now2 pos
     = Inr (g\<lparr>streamer := Some (s\<lparr>seekCalls := seekCalls s @ [seekTarget g s pos]\<rparr>), lastErr := Some err\<rparr>)"
  using assms by (simp add: seekToPosition_def Let_def)

lemma seekToPosition_success:
  assumes "streamer g = Some s" "\<not> now1 - lastSeekTime g < 50 * millisecond"
    "Seek s (seekTarget g s pos) = None" "samplesToDuration (seekTarget g s pos) (sampleRate g) = Inr p"
  shows "seekToPosition g now1 now2 pos
     = Inr (g\<lparr>streamer := Some (s\<lparr>seekCalls := seekCalls s @ [seekTarget g s pos]\<rparr>),
             audioPosition := p, lastSeekTime := now2\<rparr>)"
  using assms by (simp add: seekToPosition_def Let_def)

lemma seekToPosition_streamer:
  assumes "streamer g = Some s" "\<not> now1 - lastSeekTime g < 50 * millisecond"
    "seekToPosition g now1 now2 pos = Inr g'"
  shows "streamer g' = Some (s\<lparr>seekCalls := seekCalls s @ [seekTarget g s pos]\<rparr>)"
  using assms by (auto simp: seekToPosition_def Let_def split: option.splits sum.splits)

lemma seekToPosition_not_noop:
  assumes "streamer g = Some s" "\<not> now1 - lastSeekTime g < 50 * millisecond"
  shows "seekToPosition g now1 now2 pos \<noteq> Inr g"
proof
  assume eq: "seekToPosition g now1 now2 pos = Inr g"
  from seekToPosition_streamer [OF assms eq] assms(1)
  have "s = s\<lparr>seekCalls := seekCalls s @ [seekTarget g s pos]\<rparr>" by simp
  then have "seekCalls s = seekCalls (s\<lparr>seekCalls := seekCalls s @ [seekTarget g s pos]\<rparr>)"
    by (rule arg_cong)
  then show False by simp
qed

lemma seekTarget_clamp_high: "1 \<le> pos \<Longrightarrow> seekTarget g s pos = seekTarget g s 1"
  by (simp add: seekTarget_def)

lemma seekToPosition_clamp_high:
  "1 \<le> pos \<Longrightarrow> seekToPosition g now1 now2 pos = seekToPosition g now1 now2 1"
  by (cases "streamer g") (simp_all add: seekToPosition_def seekTarget_clamp_high [of pos])


lemma loaded_duration:
  assumes "loaded g s" "0 < sampleRate g" "sampleRate g * second < 2 ^ 63"
    "0 \<le> Len s" "Len s * second < 2 ^ 63"
  shows "audioDuration g = (Len s * second) div sampleRate g"
  using assms(1) samplesToDuration_eq [OF assms(2-5)] by (simp add: loaded_def)

lemma seekTarget_range:
  assumes "1 \<le> Len s" "Len s < 2 ^ 63"
  shows "0 \<le> seekTarget g s pos \<and> seekTarget g s pos \<le> Len s - 1"
proof -
  have "wrap64 (Len s - 1) = Len s - 1" using assms by (intro wrap64_id) simp_all
  then show ?thesis using assms(1) by (simp add: seekTarget_def Let_def)
qed

lemma seekTarget_end:
  assumes "loaded g s" "0 < sampleRate g" "sampleRate g \<le> second"
    "0 \<le> Len s" "Len s * second < 2 ^ 63"
  shows "seekTarget g s 1 = Len s - 1"
proof -
  let ?sr = "sampleRate g" and ?d = "audioDuration g" and ?L = "Len s"
  have srb: "?sr * second < 2 ^ 63" using assms(2,3) 
  proof -
    have "?sr * second \<le> second * second" using assms(3) by (simp add: second_def)
    then show ?thesis by (simp add: second_def)
  qed
  have d: "?d = (?L * second) div ?sr" by (rule loaded_duration [OF assms(1,2) srb assms(4,5)])
  have "?d * ?sr = ?L * second - (?L * second) mod ?sr"
    by (simp add: d minus_mod_eq_div_mult)
  moreover have "0 \<le> (?L * second) mod ?sr" "(?L * second) mod ?sr < ?sr"
    using assms(2) by simp_all
  ultimately have up: "?d * ?sr \<le> ?L * second" and lo: "(?L - 1) * second < ?d * ?sr"
    using assms(3) by (simp_all add: algebra_simps)
  define x where "x = 1 * real_of_int ?d * real_of_int ?sr / real_of_int second"
  have x: "x = real_of_int (?d * ?sr) / real_of_int second" by (simp add: x_def)
  have xle: "x \<le> real_of_int ?L"
  proof -
    have "real_of_int (?d * ?sr) \<le> real_of_int (?L * second)" using up by (simp only: of_int_le_iff)
    then show ?thesis by (simp add: x second_def field_simps)
  qed
  have xgt: "real_of_int (?L - 1) < x"
  proof -
    have "real_of_int ((?L - 1) * second) < real_of_int (?d * ?sr)" using lo by (simp only: of_int_less_iff)
    then show ?thesis by (simp add: x second_def field_simps)
  qed
  have fl: "?L - 1 \<le> \<lfloor>x\<rfloor>" "\<lfloor>x\<rfloor> \<le> ?L"
    using xle xgt by (simp_all add: le_floor_iff floor_le_iff)
  have Lb: "?L < 2 ^ 63" using assms(4,5) by (simp add: second_def)
  have w: "wrap64 (?L - 1) = ?L - 1" using assms(4) Lb by (intro wrap64_id) simp_all
  have t: "seekTarget g s 1 =
      (let seekPos0 = go_int x; seekPos1 = (if seekPos0 < 0 then 0 else seekPos0)
       in if seekPos1 \<ge> ?L then ?L - 1 else seekPos1)"
    by (simp add: seekTarget_def Let_def x_def w)
  show ?thesis
  proof (cases "?L = 0")
    case True
    then have "x = 0" using d by (simp add: x_def)
    then show ?thesis using True by (simp add: t go_int_def)
  next
    case False
    then have "0 \<le> x" using xgt assms(4) by simp
    then have "go_int x = \<lfloor>x\<rfloor>" by (simp add: go_int_def)
    moreover have "0 \<le> \<lfloor>x\<rfloor>" using fl(1) False assms(4) by linarith
    ultimately show ?thesis using fl by (auto simp: t Let_def)
  qed
qed

lemma seekToPosition_positionOk:
  assumes ok: "positionOk g" and s: "streamer g = Some s" and l: "loaded g s"
    and sr: "0 < sampleRate g" "sampleRate g * second < 2 ^ 63"
    and len: "0 \<le> Len s" "Len s * second < 2 ^ 63" and dur: "0 < audioDuration g"
  shows "\<exists>g'. seekToPosition g now1 now2 pos = Inr g' \<and> positionOk g'
     \<and> audioDuration g' = audioDuration g"
proof -
  let ?t = "seekTarget g s pos" and ?sr = "sampleRate g"
  note d = loaded_duration [OF l sr len]
  have L1: "1 \<le> Len s"
  proof (rule ccontr)
    assume "\<not> 1 \<le> Len s"
    then have "Len s = 0" using len(1) by simp
    then show False using dur d by simp
  qed
  have Lb: "Len s < 2 ^ 63" using len by (simp add: second_def)
  note r = seekTarget_range [OF L1 Lb, of g pos]
  have tb: "?t * second < 2 ^ 63"
  proof -
    have "?t * second \<le> Len s * second" using r by (simp add: second_def)
    then show ?thesis using len(2) by simp
  qed
  have p: "samplesToDuration ?t ?sr = Inr ((?t * second) div ?sr)"
    using r by (intro samplesToDuration_eq [OF sr _ tb]) simp
  have p0: "0 \<le> (?t * second) div ?sr" using r sr(1) by (simp add: second_def pos_imp_zdiv_nonneg_iff)
  have "?t * second \<le> Len s * second" using r by (simp add: second_def)
  then have p1: "(?t * second) div ?sr \<le> audioDuration g"
    unfolding d using sr(1) by (rule zdiv_mono1)
  show ?thesis
  proof (cases "now1 - lastSeekTime g < 50 * millisecond")
    case True
    then show ?thesis using ok by (simp add: seekToPosition_debounced)
  next
    case False
    show ?thesis
    proof (cases "Seek s ?t")
      case None
      from seekToPosition_success [OF s False None p] p0 p1 show ?thesis
        by (simp add: positionOk_def)
    next
      case (Some err)
      from seekToPosition_failure [OF s False Some] ok show ?thesis
        by (simp add: positionOk_def)
    qed
  qed
qed

lemma updateAudioPosition_positionOk:
  assumes "positionOk g" "audioDuration g + second sdiv 60 < 2 ^ 63"
  shows "positionOk (updateAudioPosition g)"
proof -
  have "- (2 ^ 63) \<le> audioPosition g + second sdiv 60" "audioPosition g + second sdiv 60 < 2 ^ 63"
    using assms by (simp_all add: positionOk_def second_def signed_divide_int_def)
  then have "wrap64 (audioPosition g + second sdiv 60) = audioPosition g + second sdiv 60"
    by (rule wrap64_id)
  moreover have "0 \<le> second sdiv 60" by (simp add: second_def signed_divide_int_def)
  ultimately show ?thesis using assms(1)
    by (auto simp: updateAudioPosition_def positionOk_def Let_def)
qed

lemma loadAndPlay_state:
  assumes "loadAndPlay g0 s sr = Inr g"
  shows "streamer g = Some s" "sampleRate g = sr" "loaded g s" "audioPosition g = 0"
    "paused g = False" "lastSeekTime g = lastSeekTime g0"
  using assms by (auto simp: loadAndPlay_def loaded_def split: sum.splits)

lemma loadAndPlay_total:
  assumes "0 < sr" "sr * second < 2 ^ 63" "0 \<le> Len s" "Len s * second < 2 ^ 63"
  shows "\<exists>g. loadAndPlay g0 s sr = Inr g \<and> audioDuration g = (Len s * second) div sr"
  using samplesToDuration_eq [OF assms]
  by (simp add: loadAndPlay_def newVisualTap_def visualRingSize_def)

section \<open>Position tracking: the claims\<close>

lemma loadAndPlay_scenario:
  "Len s = 441000 \<Longrightarrow> loadAndPlay NewGame s 44100 = Inr (scenarioGame s)"
  using samplesToDuration_eq [of 44100 441000]
  by (simp add: loadAndPlay_def newVisualTap_def visualRingSize_def NewGame_def scenarioGame_def
        second_def)

lemma scenario_target:
  "audioDuration g = 10 * second \<Longrightarrow> sampleRate g = 44100 \<Longrightarrow> Len s = 441000 \<Longrightarrow>
   seekTarget g s 0.5 = 220500"
  by (simp add: seekTarget_def Let_def go_int_def second_def)

lemma scenario_position: "samplesToDuration 220500 44100 = Inr (5 * second)"
  using samplesToDuration_eq [of 44100 220500] by (simp add: second_def)

text \<open>
  C5. A seek request made less than 50ms after \<^verbatim>\<open>lastSeekTime\<close> leaves the whole state as it
  was: position, \<^verbatim>\<open>lastSeekTime\<close>, and the decoder with its record of \<^verbatim>\<open>Seek\<close> calls. Hence,
  when a first request performed a seek at instant \<open>b\<close> and a second request comes less than
  50ms after \<open>b\<close>, the state after the second is the state after the first.
\<close>

theorem seek_debounced:
  "(now1 - lastSeekTime g < 50 * millisecond \<longrightarrow> seekToPosition g now1 now2 pos = Inr g)
   \<and> (streamer g0 = Some s \<and> \<not> a - lastSeekTime g0 < 50 * millisecond
        \<and> Seek s (seekTarget g0 s p) = None \<and> seekToPosition g0 a b p = Inr g1
        \<and> c - b < 50 * millisecond
      \<longrightarrow> lastSeekTime g1 = b \<and> seekToPosition g1 c d q = Inr g1)"
proof (intro conjI impI)
  show "seekToPosition g now1 now2 pos = Inr g" if "now1 - lastSeekTime g < 50 * millisecond"
    using that by (rule seekToPosition_debounced)
next
  assume h: "streamer g0 = Some s \<and> \<not> a - lastSeekTime g0 < 50 * millisecond
        \<and> Seek s (seekTarget g0 s p) = None \<and> seekToPosition g0 a b p = Inr g1
        \<and> c - b < 50 * millisecond"
  then show l: "lastSeekTime g1 = b"
    by (auto simp: seekToPosition_def Let_def split: sum.splits)
  from h l show "seekToPosition g1 c d q = Inr g1"
    by (intro seekToPosition_debounced) simp
qed

text \<open>
  In the scenario: a seek to one half at second 1000 moves the position to 5 s; a request
  10 ms later changes nothing.
\<close>

theorem seek_debounced_witness:
  "1000 * second + 10 * millisecond - lastSeekTime ((scenarioGame scenarioStream)
        \<lparr>streamer := Some (scenarioStream\<lparr>seekCalls := [220500]\<rparr>),
         audioPosition := 5 * second, lastSeekTime := 1000 * second\<rparr>) < 50 * millisecond
   \<and> streamer (scenarioGame scenarioStream) = Some scenarioStream
   \<and> \<not> 1000 * second - lastSeekTime (scenarioGame scenarioStream) < 50 * millisecond
   \<and> Seek scenarioStream (seekTarget (scenarioGame scenarioStream) scenarioStream 0.5) = None
   \<and> seekToPosition (scenarioGame scenarioStream) (1000 * second) (1000 * second) 0.5
       = Inr ((scenarioGame scenarioStream)
               \<lparr>streamer := Some (scenarioStream\<lparr>seekCalls := [220500]\<rparr>),
                audioPosition := 5 * second, lastSeekTime := 1000 * second\<rparr>)
   \<and> 1000 * second + 10 * millisecond - 1000 * second < 50 * millisecond
   \<and> seekToPosition ((scenarioGame scenarioStream)
        \<lparr>streamer := Some (scenarioStream\<lparr>seekCalls := [220500]\<rparr>),
         audioPosition := 5 * second, lastSeekTime := 1000 * second\<rparr>)
        (1000 * second + 10 * millisecond) (1000 * second + 10 * millisecond) 0.9
       = Inr ((scenarioGame scenarioStream)
               \<lparr>streamer := Some (scenarioStream\<lparr>seekCalls := [220500]\<rparr>),
                audioPosition := 5 * second, lastSeekTime := 1000 * second\<rparr>)"
proof -
  let ?g0 = "scenarioGame scenarioStream"
  let ?g1 = "?g0\<lparr>streamer := Some (scenarioStream\<lparr>seekCalls := [220500]\<rparr>),
         audioPosition := 5 * second, lastSeekTime := 1000 * second\<rparr>"
  have t: "seekTarget ?g0 scenarioStream 0.5 = 220500"
    by (rule scenario_target) (simp_all add: scenarioGame_def scenarioStream_def)
  have s: "streamer ?g0 = Some scenarioStream" by (simp add: scenarioGame_def)
  have nd: "\<not> 1000 * second - lastSeekTime ?g0 < 50 * millisecond"
    by (simp add: scenarioGame_def second_def millisecond_def)
  have ok: "Seek scenarioStream (seekTarget ?g0 scenarioStream 0.5) = None"
    unfolding t by (simp add: scenarioStream_def)
  have p: "samplesToDuration (seekTarget ?g0 scenarioStream 0.5) (sampleRate ?g0) = Inr (5 * second)"
    unfolding t using scenario_position by (simp add: scenarioGame_def)
  have first: "seekToPosition ?g0 (1000 * second) (1000 * second) 0.5 = Inr ?g1"
    using seekToPosition_success [OF s nd ok p, of "1000 * second"] unfolding t
    by (simp add: scenarioStream_def)
  have w: "1000 * second + 10 * millisecond - 1000 * second < 50 * millisecond"
    by (simp add: millisecond_def)
  have d: "1000 * second + 10 * millisecond - lastSeekTime ?g1 < 50 * millisecond"
    by (simp add: second_def millisecond_def)
  from seek_debounced [where ?now1.0 = "1000 * second + 10 * millisecond" and g = ?g1
      and ?now2.0 = "1000 * second + 10 * millisecond" and pos = "0.9"
      and ?g0.0 = ?g0 and s = scenarioStream and a = "1000 * second" and p = "0.5"
      and b = "1000 * second" and ?g1.0 = ?g1 and c = "1000 * second + 10 * millisecond"
      and d = "1000 * second + 10 * millisecond" and q = "0.9"]
    s nd ok first w d
  show ?thesis by simp
qed


text \<open>
  C6. When a seek request is not debounced and the decoder's \<^verbatim>\<open>Seek\<close> returns an error, the
  position, the total duration and \<^verbatim>\<open>lastSeekTime\<close> are unchanged and the error is stored
  in \<^verbatim>\<open>lastErr\<close>; a retry at any later instant \<open>now3\<close> passes the debounce test and is not a
  no-op.
\<close>

theorem seek_decoder_failure:
  assumes "streamer g = Some s" and "\<not> now1 - lastSeekTime g < 50 * millisecond"
    and "Seek s (seekTarget g s pos) = Some err"
  shows "\<exists>g'. seekToPosition g now1 now2 pos = Inr g'
      \<and> audioPosition g' = audioPosition g \<and> audioDuration g' = audioDuration g
      \<and> lastSeekTime g' = lastSeekTime g \<and> lastErr g' = Some err
      \<and> streamer g' = Some (s\<lparr>seekCalls := seekCalls s @ [seekTarget g s pos]\<rparr>)
      \<and> (now1 \<le> now3 \<longrightarrow>
            \<not> now3 - lastSeekTime g' < 50 * millisecond
            \<and> seekToPosition g' now3 now4 pos' \<noteq> Inr g')"
proof -
  let ?g' = "g\<lparr>streamer := Some (s\<lparr>seekCalls := seekCalls s @ [seekTarget g s pos]\<rparr>),
                lastErr := Some err\<rparr>"
  have r: "seekToPosition g now1 now2 pos = Inr ?g'"
    by (rule seekToPosition_failure [OF assms])
  have "\<not> now3 - lastSeekTime ?g' < 50 * millisecond \<and> seekToPosition ?g' now3 now4 pos' \<noteq> Inr ?g'"
    if "now1 \<le> now3"
  proof -
    have nd: "\<not> now3 - lastSeekTime ?g' < 50 * millisecond" using that assms(2) by simp
    have "streamer ?g' = Some (s\<lparr>seekCalls := seekCalls s @ [seekTarget g s pos]\<rparr>)" by simp
    from seekToPosition_not_noop [OF this nd] nd show ?thesis by simp
  qed
  with r show ?thesis by simp
qed

text \<open>The scenario with a decoder that refuses every seek; the retry comes 1 ns later.\<close>

theorem seek_decoder_failure_witness:
  "streamer (scenarioGame refusingStream) = Some refusingStream
   \<and> \<not> 1000 * second - lastSeekTime (scenarioGame refusingStream) < 50 * millisecond
   \<and> Seek refusingStream (seekTarget (scenarioGame refusingStream) refusingStream 0.5) = Some ''seek refused''
   \<and> (1000 * second \<le> 1000 * second + 1)
   \<and> (\<exists>g'. seekToPosition (scenarioGame refusingStream) (1000 * second) (1000 * second) 0.5 = Inr g'
      \<and> audioPosition g' = 0 \<and> audioDuration g' = 10 * second
      \<and> lastSeekTime g' = - 62135596800 * second \<and> lastErr g' = Some ''seek refused''
      \<and> streamer g' = Some (refusingStream\<lparr>seekCalls := [220500]\<rparr>)
      \<and> \<not> 1000 * second + 1 - lastSeekTime g' < 50 * millisecond
      \<and> seekToPosition g' (1000 * second + 1) (1000 * second + 1) 0.5 \<noteq> Inr g')"
proof -
  let ?g = "scenarioGame refusingStream"
  have t: "seekTarget ?g refusingStream 0.5 = 220500"
    by (rule scenario_target) (simp_all add: scenarioGame_def refusingStream_def)
  have s: "streamer ?g = Some refusingStream" by (simp add: scenarioGame_def)
  have nd: "\<not> 1000 * second - lastSeekTime ?g < 50 * millisecond"
    by (simp add: scenarioGame_def second_def millisecond_def)
  have e: "Seek refusingStream (seekTarget ?g refusingStream 0.5) = Some ''seek refused''"
    by (simp add: refusingStream_def)
  have f: "audioPosition ?g = 0" "audioDuration ?g = 10 * second"
    "lastSeekTime ?g = - 62135596800 * second" "seekCalls refusingStream = []"
    by (simp_all add: scenarioGame_def refusingStream_def)
  have d: "1000 * second \<le> 1000 * second + 1" by simp
  from seek_decoder_failure [OF s nd e, where ?now2.0 = "1000 * second"
      and ?now3.0 = "1000 * second + 1" and ?now4.0 = "1000 * second + 1" and pos' = "0.5"]
  have res: "\<exists>g'. seekToPosition (scenarioGame refusingStream) (1000 * second) (1000 * second) 0.5 = Inr g'
      \<and> audioPosition g' = 0 \<and> audioDuration g' = 10 * second
      \<and> lastSeekTime g' = - 62135596800 * second \<and> lastErr g' = Some ''seek refused''
      \<and> streamer g' = Some (refusingStream\<lparr>seekCalls := [220500]\<rparr>)
      \<and> \<not> 1000 * second + 1 - lastSeekTime g' < 50 * millisecond
      \<and> seekToPosition g' (1000 * second + 1) (1000 * second + 1) 0.5 \<noteq> Inr g'"
    unfolding t f by simp
  show ?thesis using s nd e d res by blast
qed


lemma samplesToDuration_total:
  assumes "0 < sr" "sr * second < 2 ^ 63"
  shows "\<exists>p. samplesToDuration x sr = Inr p"
  using assms by (simp add: samplesToDuration_def go_div_def sampleRateN_second)

lemma seekToPosition_total:
  assumes "streamer g = Some s" "\<not> now1 - lastSeekTime g < 50 * millisecond"
    "0 < sampleRate g" "sampleRate g * second < 2 ^ 63"
  shows "\<exists>g'. seekToPosition g now1 now2 pos = Inr g'
     \<and> streamer g' = Some (s\<lparr>seekCalls := seekCalls s @ [seekTarget g s pos]\<rparr>)"
proof (cases "Seek s (seekTarget g s pos)")
  case None
  from samplesToDuration_total [OF assms(3,4)] obtain p where
    "samplesToDuration (seekTarget g s pos) (sampleRate g) = Inr p" by blast
  from seekToPosition_success [OF assms(1,2) None this] show ?thesis by simp
next
  case (Some err)
  from seekToPosition_failure [OF assms(1,2) Some] show ?thesis by simp
qed

lemma second_bound: "sr \<le> second \<Longrightarrow> sr * second < 2 ^ 63"
proof -
  assume "sr \<le> second"
  then have "sr * second \<le> second * second" by (simp add: second_def)
  then show ?thesis by (simp add: second_def)
qed

text \<open>
  C7. \<^verbatim>\<open>seekToPosition(1.5)\<close> is \<^verbatim>\<open>seekToPosition(1.0)\<close>. For a stream loaded by
  \<^verbatim>\<open>loadAndPlay\<close> (sample rate positive and at most \<open>10^9\<close> Hz, length in nanoseconds within
  \<^verbatim>\<open>int64\<close>), the offset computed for 1.5 is \<open>Len - 1\<close>, and it is the offset the decoder is
  called with. With 441000 samples at 44100 Hz the total is 10 s, the target for 0.5 is 220500,
  and once the decoder accepts it the position is 5 s.
\<close>

theorem seek_clamps_to_last_sample:
  "seekToPosition g now1 now2 1.5 = seekToPosition g now1 now2 1.0
   \<and> (streamer g = Some s \<and> loaded g s \<and> 0 < sampleRate g \<and> sampleRate g \<le> second
        \<and> 0 \<le> Len s \<and> Len s * second < 2 ^ 63 \<and> \<not> now1 - lastSeekTime g < 50 * millisecond
      \<longrightarrow> seekTarget g s 1.5 = Len s - 1
        \<and> (\<exists>g'. seekToPosition g now1 now2 1.5 = Inr g'
             \<and> streamer g' = Some (s\<lparr>seekCalls := seekCalls s @ [Len s - 1]\<rparr>)))
   \<and> (loadAndPlay g0 s1 44100 = Inr g1 \<and> Len s1 = 441000 \<and> Seek s1 220500 = None
        \<and> \<not> n1 - lastSeekTime g1 < 50 * millisecond
      \<longrightarrow> audioDuration g1 = 10 * second \<and> seekTarget g1 s1 0.5 = 220500
        \<and> (\<exists>g2. seekToPosition g1 n1 n2 0.5 = Inr g2 \<and> audioPosition g2 = 5 * second
             \<and> streamer g2 = Some (s1\<lparr>seekCalls := seekCalls s1 @ [220500]\<rparr>)))"
proof (intro conjI impI)
  show "seekToPosition g now1 now2 1.5 = seekToPosition g now1 now2 1.0"
    using seekToPosition_clamp_high [of "1.5" g now1 now2] by simp
next
  assume h: "streamer g = Some s \<and> loaded g s \<and> 0 < sampleRate g \<and> sampleRate g \<le> second
        \<and> 0 \<le> Len s \<and> Len s * second < 2 ^ 63 \<and> \<not> now1 - lastSeekTime g < 50 * millisecond"
  then have "seekTarget g s 1 = Len s - 1" by (intro seekTarget_end) simp_all
  then show t: "seekTarget g s 1.5 = Len s - 1"
    using seekTarget_clamp_high [of "1.5" g s] by simp
  from h have "sampleRate g * second < 2 ^ 63" by (intro second_bound) simp
  with h seekToPosition_total [of g s now1 now2 "1.5"] t
  show "\<exists>g'. seekToPosition g now1 now2 1.5 = Inr g'
      \<and> streamer g' = Some (s\<lparr>seekCalls := seekCalls s @ [Len s - 1]\<rparr>)"
    by simp
next
  assume h: "loadAndPlay g0 s1 44100 = Inr g1 \<and> Len s1 = 441000 \<and> Seek s1 220500 = None
        \<and> \<not> n1 - lastSeekTime g1 < 50 * millisecond"
  then have l: "loadAndPlay g0 s1 44100 = Inr g1" by simp
  note st = loadAndPlay_state [OF l]
  have "audioDuration g1 = (Len s1 * second) div sampleRate g1"
    using st h by (intro loaded_duration) (simp_all add: second_def)
  then show d: "audioDuration g1 = 10 * second" using st h by (simp add: second_def)
  from d st h show t: "seekTarget g1 s1 0.5 = 220500" by (intro scenario_target) simp_all
  have "seekToPosition g1 n1 n2 0.5
     = Inr (g1\<lparr>streamer := Some (s1\<lparr>seekCalls := seekCalls s1 @ [seekTarget g1 s1 0.5]\<rparr>),
             audioPosition := 5 * second, lastSeekTime := n2\<rparr>)"
    using st h scenario_position unfolding t [symmetric]
    by (intro seekToPosition_success) (simp_all add: t)
  then show "\<exists>g2. seekToPosition g1 n1 n2 0.5 = Inr g2 \<and> audioPosition g2 = 5 * second
      \<and> streamer g2 = Some (s1\<lparr>seekCalls := seekCalls s1 @ [220500]\<rparr>)"
    unfolding t by simp
qed


lemma scenario_facts:
  "streamer (scenarioGame s) = Some s" "sampleRate (scenarioGame s) = 44100"
  "audioDuration (scenarioGame s) = 10 * second" "audioPosition (scenarioGame s) = 0"
  "lastSeekTime (scenarioGame s) = - 62135596800 * second"
  "Len scenarioStream = 441000" "seekCalls scenarioStream = []"
  "Seek scenarioStream 220500 = None"
  by (simp_all add: scenarioGame_def scenarioStream_def)

lemma scenario_loaded: "Len s = 441000 \<Longrightarrow> loaded (scenarioGame s) s"
  using loadAndPlay_state(3) [OF loadAndPlay_scenario] .

text \<open>The scenario stream, loaded into a new game, at second 1000.\<close>

theorem seek_clamps_to_last_sample_witness:
  "seekToPosition (scenarioGame scenarioStream) (1000 * second) (1000 * second) 1.5
     = seekToPosition (scenarioGame scenarioStream) (1000 * second) (1000 * second) 1.0
   \<and> streamer (scenarioGame scenarioStream) = Some scenarioStream
   \<and> loaded (scenarioGame scenarioStream) scenarioStream
   \<and> 0 < sampleRate (scenarioGame scenarioStream)
   \<and> sampleRate (scenarioGame scenarioStream) \<le> second
   \<and> 0 \<le> Len scenarioStream \<and> Len scenarioStream * second < 2 ^ 63
   \<and> \<not> 1000 * second - lastSeekTime (scenarioGame scenarioStream) < 50 * millisecond
   \<and> seekTarget (scenarioGame scenarioStream) scenarioStream 1.5 = 440999
   \<and> (\<exists>g'. seekToPosition (scenarioGame scenarioStream) (1000 * second) (1000 * second) 1.5 = Inr g'
         \<and> streamer g' = Some (scenarioStream\<lparr>seekCalls := [440999]\<rparr>))
   \<and> loadAndPlay NewGame scenarioStream 44100 = Inr (scenarioGame scenarioStream)
   \<and> Len scenarioStream = 441000 \<and> Seek scenarioStream 220500 = None
   \<and> audioDuration (scenarioGame scenarioStream) = 10 * second
   \<and> seekTarget (scenarioGame scenarioStream) scenarioStream 0.5 = 220500
   \<and> (\<exists>g2. seekToPosition (scenarioGame scenarioStream) (1000 * second) (1000 * second) 0.5 = Inr g2
         \<and> audioPosition g2 = 5 * second
         \<and> streamer g2 = Some (scenarioStream\<lparr>seekCalls := [220500]\<rparr>))"
proof -
  let ?G = "scenarioGame scenarioStream" and ?S = scenarioStream
  note th = seek_clamps_to_last_sample [where g = ?G and s = ?S and ?now1.0 = "1000 * second"
      and ?now2.0 = "1000 * second" and ?g0.0 = NewGame and ?s1.0 = ?S and ?g1.0 = ?G
      and ?n1.0 = "1000 * second" and ?n2.0 = "1000 * second"]
  note f = scenario_facts
  have h1: "streamer ?G = Some ?S" by (rule f)
  have h2: "loaded ?G ?S" by (rule scenario_loaded) (rule f)
  have h3: "0 < sampleRate ?G" "sampleRate ?G \<le> second" by (simp_all add: f second_def)
  have h4: "0 \<le> Len ?S" "Len ?S * second < 2 ^ 63" by (simp_all add: f second_def)
  have h5: "\<not> 1000 * second - lastSeekTime ?G < 50 * millisecond"
    by (simp add: f second_def millisecond_def)
  have h6: "loadAndPlay NewGame ?S 44100 = Inr ?G" by (rule loadAndPlay_scenario) (rule f)
  have h7: "Len ?S = 441000" "Seek ?S 220500 = None" by (rule f)+
  from th have c1: "seekToPosition ?G (1000 * second) (1000 * second) 1.5
     = seekToPosition ?G (1000 * second) (1000 * second) 1.0" by blast
  from th h1 h2 h3 h4 h5 have "seekTarget ?G ?S 1.5 = Len ?S - 1
      \<and> (\<exists>g'. seekToPosition ?G (1000 * second) (1000 * second) 1.5 = Inr g'
             \<and> streamer g' = Some (?S\<lparr>seekCalls := seekCalls ?S @ [Len ?S - 1]\<rparr>))"
    by blast
  then have c2: "seekTarget ?G ?S 1.5 = 440999
      \<and> (\<exists>g'. seekToPosition ?G (1000 * second) (1000 * second) 1.5 = Inr g'
             \<and> streamer g' = Some (?S\<lparr>seekCalls := [440999]\<rparr>))"
    by (simp add: f)
  from th h5 h6 h7 have "audioDuration ?G = 10 * second \<and> seekTarget ?G ?S 0.5 = 220500
      \<and> (\<exists>g2. seekToPosition ?G (1000 * second) (1000 * second) 0.5 = Inr g2
            \<and> audioPosition g2 = 5 * second
            \<and> streamer g2 = Some (?S\<lparr>seekCalls := seekCalls ?S @ [220500]\<rparr>))"
    by blast
  then have c3: "audioDuration ?G = 10 * second \<and> seekTarget ?G ?S 0.5 = 220500
      \<and> (\<exists>g2. seekToPosition ?G (1000 * second) (1000 * second) 0.5 = Inr g2
            \<and> audioPosition g2 = 5 * second
            \<and> streamer g2 = Some (?S\<lparr>seekCalls := [220500]\<rparr>))"
    by (simp add: f)
  from c1 h1 h2 h3 h4 h5 c2 h6 h7 c3 show ?thesis by blast
qed

text \<open>
  C8. \<open>0 \<le> position \<le> total\<close> is kept by each operation on the playback clock: the tick
  (total below \<open>2^63\<close> by a tick, so that the addition does not wrap); the seek, on a loaded
  stream with \<open>total > 0\<close>, the condition under which \<^verbatim>\<open>Update\<close> calls \<^verbatim>\<open>seekToPosition\<close>,
  where the target offset lies in \<open>[0, Len - 1]\<close>; the end of the stream, which resets
  both to 0; and the load itself.
\<close>

theorem position_invariant:
  "(positionOk g \<and> audioDuration g + second sdiv 60 < 2 ^ 63
      \<longrightarrow> positionOk (updateAudioPosition g))
   \<and> (positionOk g \<and> streamer g = Some s \<and> loaded g s \<and> 0 < sampleRate g
        \<and> sampleRate g * second < 2 ^ 63 \<and> 0 \<le> Len s \<and> Len s * second < 2 ^ 63
        \<and> 0 < audioDuration g
      \<longrightarrow> 0 \<le> seekTarget g s pos \<and> seekTarget g s pos \<le> Len s - 1
        \<and> (\<exists>g'. seekToPosition g now1 now2 pos = Inr g' \<and> positionOk g'))
   \<and> positionOk (streamEnded g) \<and> audioPosition (streamEnded g) = 0
   \<and> audioDuration (streamEnded g) = 0
   \<and> (0 < sr \<and> sr * second < 2 ^ 63 \<and> 0 \<le> Len s' \<and> Len s' * second < 2 ^ 63
      \<longrightarrow> (\<exists>g'. loadAndPlay g s' sr = Inr g' \<and> positionOk g'))"
proof (intro conjI impI)
  show "positionOk (updateAudioPosition g)"
    if "positionOk g \<and> audioDuration g + second sdiv 60 < 2 ^ 63"
    using that by (intro updateAudioPosition_positionOk) simp_all
  show "positionOk (streamEnded g)" "audioPosition (streamEnded g) = 0"
    "audioDuration (streamEnded g) = 0"
    by (simp_all add: streamEnded_def positionOk_def)
next
  assume h: "positionOk g \<and> streamer g = Some s \<and> loaded g s \<and> 0 < sampleRate g
        \<and> sampleRate g * second < 2 ^ 63 \<and> 0 \<le> Len s \<and> Len s * second < 2 ^ 63
        \<and> 0 < audioDuration g"
  then have d: "audioDuration g = (Len s * second) div sampleRate g"
    by (intro loaded_duration) simp_all
  have "1 \<le> Len s"
  proof (rule ccontr)
    assume "\<not> 1 \<le> Len s"
    then have "Len s = 0" using h by simp
    then show False using h d by simp
  qed
  moreover have "Len s < 2 ^ 63" using h by (simp add: second_def)
  ultimately have "0 \<le> seekTarget g s pos \<and> seekTarget g s pos \<le> Len s - 1"
    by (rule seekTarget_range)
  then show "0 \<le> seekTarget g s pos" "seekTarget g s pos \<le> Len s - 1" by simp_all
  from h seekToPosition_positionOk [of g s now1 now2 pos]
  show "\<exists>g'. seekToPosition g now1 now2 pos = Inr g' \<and> positionOk g'" by blast
next
  assume h: "0 < sr \<and> sr * second < 2 ^ 63 \<and> 0 \<le> Len s' \<and> Len s' * second < 2 ^ 63"
  then obtain g' where g': "loadAndPlay g s' sr = Inr g'"
      "audioDuration g' = (Len s' * second) div sr"
    using loadAndPlay_total [of sr s' g] by blast
  have "0 \<le> (Len s' * second) div sr" using h by (simp add: second_def pos_imp_zdiv_nonneg_iff)
  then have "positionOk g'" using g' loadAndPlay_state(4) [OF g'(1)] by (simp add: positionOk_def)
  with g' show "\<exists>g'. loadAndPlay g s' sr = Inr g' \<and> positionOk g'" by blast
qed

text \<open>Every hypothesis of C8 holds in the scenario.\<close>

theorem position_invariant_witness:
  "positionOk (scenarioGame scenarioStream)
   \<and> audioDuration (scenarioGame scenarioStream) + second sdiv 60 < 2 ^ 63
   \<and> positionOk (updateAudioPosition (scenarioGame scenarioStream))
   \<and> streamer (scenarioGame scenarioStream) = Some scenarioStream
   \<and> loaded (scenarioGame scenarioStream) scenarioStream
   \<and> 0 < sampleRate (scenarioGame scenarioStream)
   \<and> sampleRate (scenarioGame scenarioStream) * second < 2 ^ 63
   \<and> 0 \<le> Len scenarioStream \<and> Len scenarioStream * second < 2 ^ 63
   \<and> 0 < audioDuration (scenarioGame scenarioStream)
   \<and> 0 \<le> seekTarget (scenarioGame scenarioStream) scenarioStream 0.5
   \<and> seekTarget (scenarioGame scenarioStream) scenarioStream 0.5 \<le> Len scenarioStream - 1
   \<and> (\<exists>g'. seekToPosition (scenarioGame scenarioStream) (1000 * second) (1000 * second) 0.5 = Inr g'
         \<and> positionOk g')
   \<and> positionOk (streamEnded (scenarioGame scenarioStream))
   \<and> (0::int) < 44100 \<and> 44100 * second < 2 ^ 63
   \<and> (\<exists>g'. loadAndPlay (scenarioGame scenarioStream) scenarioStream 44100 = Inr g' \<and> positionOk g')"
proof -
  let ?G = "scenarioGame scenarioStream" and ?S = scenarioStream
  note th = position_invariant [where g = ?G and s = ?S and pos = "0.5"
      and ?now1.0 = "1000 * second" and ?now2.0 = "1000 * second" and sr = 44100 and s' = ?S]
  note f = scenario_facts
  have h0: "positionOk ?G" by (simp add: positionOk_def f second_def)
  have h1: "audioDuration ?G + second sdiv 60 < 2 ^ 63"
    by (simp add: f second_def signed_divide_int_def)
  have h2: "streamer ?G = Some ?S" by (rule f)
  have h3: "loaded ?G ?S" by (rule scenario_loaded) (rule f)
  have h4: "0 < sampleRate ?G" "sampleRate ?G * second < 2 ^ 63" by (simp_all add: f second_def)
  have h5: "0 \<le> Len ?S" "Len ?S * second < 2 ^ 63" by (simp_all add: f second_def)
  have h6: "0 < audioDuration ?G" by (simp add: f second_def)
  have h7: "(0::int) < 44100" "44100 * second < 2 ^ 63" by (simp_all add: second_def)
  from th h0 h1 have c1: "positionOk (updateAudioPosition ?G)" by blast
  from th h0 h2 h3 h4 h5 h6 have c2: "0 \<le> seekTarget ?G ?S 0.5 \<and> seekTarget ?G ?S 0.5 \<le> Len ?S - 1
      \<and> (\<exists>g'. seekToPosition ?G (1000 * second) (1000 * second) 0.5 = Inr g' \<and> positionOk g')"
    by blast
  from th have c3: "positionOk (streamEnded ?G)" by blast
  from th h7 h5 have c4: "\<exists>g'. loadAndPlay ?G ?S 44100 = Inr g' \<and> positionOk g'" by blast
  from h0 h1 c1 h2 h3 h4 h5 h6 c2 c3 h7 c4 show ?thesis by blast
qed

end
